theory Spec2Isabelle
  imports Main "HOL-Library.Sublist"
begin

section \<open>JavaScript strings\<close>

text \<open>
  A JavaScript string is a sequence of UTF-16 code units; \<open>s.length\<close> counts them.
  A code unit is modelled as a natural number, a string as the list of its code units.
  \<open>str\<close> turns an ASCII literal into such a list.
\<close>

type_synonym jsstring = "nat list"

definition str :: "string \<Rightarrow> jsstring" where
  "str s = map of_char s"

definition nl :: jsstring where
  "nl = [0x0A]"

text \<open>\<open>Boolean(s)\<close> on a string: the empty string is the only falsy one.\<close>

definition Boolean :: "jsstring \<Rightarrow> bool" where
  "Boolean s = (s \<noteq> [])"

text \<open>
  \<open>s.split(sep)\<close> for a string separator: the pieces between the occurrences of
  \<open>sep\<close>, found from left to right without overlap. \<open>split_from sep acc s\<close> scans the
  rest \<open>s\<close> with the piece read so far in \<open>acc\<close>. An empty separator splits into the
  single code units.
\<close>

function split_from :: "jsstring \<Rightarrow> jsstring \<Rightarrow> jsstring \<Rightarrow> jsstring list" where
  "split_from sep acc [] = [acc]"
| "split_from sep acc (c # cs) =
     (if sep \<noteq> [] \<and> prefix sep (c # cs)
      then acc # split_from sep [] (drop (length sep) (c # cs))
      else split_from sep (acc @ [c]) cs)"
  by pat_completeness auto
termination
  by (relation "measure (\<lambda>(sep, acc, s). length s)") (auto simp: neq_Nil_conv)

definition split :: "jsstring \<Rightarrow> jsstring \<Rightarrow> jsstring list" where
  "split s sep = (if sep = [] then map (\<lambda>c. [c]) s else split_from sep [] s)"


text \<open>\<open>s.includes(search)\<close>: \<open>search\<close> occurs in \<open>s\<close> as a contiguous run.\<close>

fun includes_str :: "jsstring \<Rightarrow> jsstring \<Rightarrow> bool" where
  "includes_str [] search = (search = [])"
| "includes_str (c # cs) search = (prefix search (c # cs) \<or> includes_str cs search)"

text \<open>
  \<open>s.replace(pattern, replacement)\<close> for a string pattern: only the first occurrence
  is replaced. The replacement is taken literally, which is what JavaScript does for a
  replacement that holds no \<open>$\<close>.
\<close>

fun replace :: "jsstring \<Rightarrow> jsstring \<Rightarrow> jsstring \<Rightarrow> jsstring" where
  "replace [] pat rep = (if pat = [] then rep else [])"
| "replace (c # cs) pat rep =
     (if prefix pat (c # cs) then rep @ drop (length pat) (c # cs)
      else c # replace cs pat rep)"


section \<open>Constants (config/constants.ts)\<close>

definition MAX_DIFF_LENGTH :: nat where
  "MAX_DIFF_LENGTH = 15000"

definition CHUNK_THRESHOLD :: nat where
  "CHUNK_THRESHOLD = 50000"

definition FREE_ACCOUNT_COOLDOWN :: int where
  "FREE_ACCOUNT_COOLDOWN = 60000"


section \<open>splitDiffIntoChunks (services/aiService.ts)\<close>

definition DIFF_GIT :: jsstring where
  "DIFF_GIT = str ''diff --git''"

text \<open>\<open>diff.split('diff --git').filter(Boolean)\<close>\<close>

definition fileSections :: "jsstring \<Rightarrow> jsstring list" where
  "fileSections diff = filter Boolean (split diff DIFF_GIT)"

text \<open>
  The \<open>for\<close> loop over the sections; the state is the pair of \<open>chunks\<close> and
  \<open>currentChunk\<close>.
\<close>

fun chunkLoop :: "jsstring list \<Rightarrow> jsstring list \<times> jsstring \<Rightarrow> jsstring list \<times> jsstring" where
  "chunkLoop [] st = st"
| "chunkLoop (section # rest) (chunks, currentChunk) =
     (let fullSection = DIFF_GIT @ section in
      if length currentChunk + length fullSection > MAX_DIFF_LENGTH
      then chunkLoop rest
             (if Boolean currentChunk then chunks @ [currentChunk] else chunks, fullSection)
      else chunkLoop rest
             (chunks, currentChunk @ (if Boolean currentChunk then nl else []) @ fullSection))"

definition splitDiffIntoChunks :: "jsstring \<Rightarrow> jsstring list" where
  "splitDiffIntoChunks diff =
     (case chunkLoop (fileSections diff) ([], []) of
        (chunks, currentChunk) \<Rightarrow>
          if Boolean currentChunk then chunks @ [currentChunk] else chunks)"

text \<open>
  The values of \<open>fullSection\<close> in the order in which the loop packs them: every piece
  of the code's own split with the delimiter put back in front. This is the parse of the
  code, not the \<open>FileSection\<close> sequence of the specification, which follows.
\<close>

definition fullSections :: "jsstring \<Rightarrow> jsstring list" where
  "fullSections diff = map (\<lambda>section. DIFF_GIT @ section) (fileSections diff)"


section \<open>The file sections of a diff, as the specification defines them\<close>

text \<open>
  The specification's data model: a diff consists of zero or more file sections, a file
  section begins at a delimiter line, that is a line that starts with \<open>diff --git\<close>,
  and a diff without delimiter is a single section. \<open>cutAtDelimiterLines current bol s\<close>
  reads the rest \<open>s\<close> of the diff with the section read so far in \<open>current\<close>; \<open>bol\<close>
  says that \<open>s\<close> begins a line. \<open>specFileSections\<close> follows these words and not the
  code: the diff is cut in front of every delimiter line, and nothing is added or dropped.
\<close>

fun cutAtDelimiterLines :: "jsstring \<Rightarrow> bool \<Rightarrow> jsstring \<Rightarrow> jsstring list" where
  "cutAtDelimiterLines current bol [] = [current]"
| "cutAtDelimiterLines current bol (c # cs) =
     (if bol \<and> prefix DIFF_GIT (c # cs)
      then current # cutAtDelimiterLines [c] False cs
      else cutAtDelimiterLines (current @ [c]) (c = 0x0A) cs)"

definition specFileSections :: "jsstring \<Rightarrow> jsstring list" where
  "specFileSections diff = filter (\<lambda>s. s \<noteq> []) (cutAtDelimiterLines [] True diff)"

text \<open>
  The diffs on which the delimiter is only what the specification takes it for: every
  occurrence of \<open>diff --git\<close> in \<open>s\<close> begins a line and is followed by at least one more
  code unit. \<open>bol\<close> says that \<open>s\<close> itself begins a line.
\<close>

fun delimitersStartLines :: "bool \<Rightarrow> jsstring \<Rightarrow> bool" where
  "delimitersStartLines bol [] = True"
| "delimitersStartLines bol (c # cs) =
     ((if prefix DIFF_GIT (c # cs) then bol \<and> length DIFF_GIT \<le> length cs else True)
      \<and> delimitersStartLines (c = 0x0A) cs)"


section \<open>Errors and configuration (types/index.ts)\<close>

text \<open>A thrown \<open>Error\<close> with its message.\<close>

datatype error = Error jsstring

datatype AIProvider = Gemini | OpenAI

text \<open>
  The \<open>Config\<close> interface. An optional field is an \<open>option\<close>; the nested \<open>defaults\<close>
  record is read by none of the functions below and is left out.
\<close>

record Config =
  AI_PROVIDER :: AIProvider
  GEMINI_API_KEY :: "jsstring option"
  OPENAI_API_KEY :: "jsstring option"
  IS_FREE_ACCOUNT :: bool
  LAST_REQUEST_TIME :: "int option"
  MODEL :: "jsstring option"

text \<open>\<open>config.LAST_REQUEST_TIME || 0\<close>: an unset field counts as 0.\<close>

definition orZero :: "int option \<Rightarrow> int" where
  "orZero t = (case t of None \<Rightarrow> 0 | Some n \<Rightarrow> n)"


section \<open>rateLimiter (services/aiService.ts)\<close>

text \<open>
  \<open>Date.now()\<close> reads a clock in milliseconds, which is passed in and returned. The
  only thing that moves the clock here is the \<open>setTimeout\<close> wait, which resumes the
  caller after the delay of the timer (a timer never fires early). Node takes a delay
  that is not between 1 and 2147483647 ms for 1 ms: \<open>timerDelay\<close>. The function
  returns the clock at the moment of return and the mutated \<open>config\<close>.
\<close>

definition timerDelay :: "int \<Rightarrow> int" where
  "timerDelay after = (if 1 \<le> after \<and> after \<le> 2147483647 then after else 1)"

definition rateLimiter :: "int \<Rightarrow> Config \<Rightarrow> int \<times> Config" where
  "rateLimiter clock config =
     (if IS_FREE_ACCOUNT config then
        (let now = clock;
             lastRequest = orZero (LAST_REQUEST_TIME config);
             timeSinceLastRequest = now - lastRequest;
             clock' = (if timeSinceLastRequest < FREE_ACCOUNT_COOLDOWN
                       then (let waitTime = FREE_ACCOUNT_COOLDOWN - timeSinceLastRequest
                             in clock + timerDelay waitTime)
                       else clock)
         in (clock', config\<lparr>LAST_REQUEST_TIME := Some now\<rparr>))
      else (clock, config))"


section \<open>batchProcess (services/aiService.ts)\<close>

text \<open>\<open>config.IS_FREE_ACCOUNT ? 2 : 5\<close>\<close>

definition MAX_CONCURRENT_REQUESTS :: "bool \<Rightarrow> nat" where
  "MAX_CONCURRENT_REQUESTS free = (if free then 2 else 5)"

text \<open>\<open>items.slice(from, to)\<close> for indices within \<open>0 \<le> from \<le> to\<close>.\<close>

definition slice :: "'a list \<Rightarrow> nat \<Rightarrow> nat \<Rightarrow> 'a list" where
  "slice items from to = take (to - from) (drop from items)"

text \<open>
  The processor is a function from an item to its outcome: \<open>Inl\<close> when the promise
  rejects, \<open>Inr\<close> with the string when it resolves. \<open>settle\<close> is the \<open>try\<close>/\<open>catch\<close>
  around one call: a rejection becomes the empty string.
\<close>

definition settle :: "('a \<Rightarrow> error + jsstring) \<Rightarrow> 'a \<Rightarrow> jsstring" where
  "settle processor item = (case processor item of Inl e \<Rightarrow> [] | Inr s \<Rightarrow> s)"

text \<open>
  The \<open>for\<close> loop over the windows, with the index \<open>i\<close>; the state is the clock, the
  \<open>config\<close> object and \<open>results\<close>. \<open>free\<close> is the account flag read before the loop,
  which fixes the window size.
\<close>

function batchLoop ::
  "'a list \<Rightarrow> ('a \<Rightarrow> error + jsstring) \<Rightarrow> bool \<Rightarrow> nat \<Rightarrow> int \<times> Config \<times> jsstring list
     \<Rightarrow> int \<times> Config \<times> jsstring list" where
  "batchLoop items processor free i (clock, config, results) =
     (if i < length items then
        (let batch = slice items i (i + MAX_CONCURRENT_REQUESTS free);
             (clock', config') = rateLimiter clock config;
             batchResults = map (settle processor) batch
         in batchLoop items processor free (i + MAX_CONCURRENT_REQUESTS free)
              (clock', config', results @ batchResults))
      else (clock, config, results))"
  by pat_completeness auto
termination
  by (relation "measure (\<lambda>(items, processor, free, i, st). length items - i)")
     (auto simp: MAX_CONCURRENT_REQUESTS_def)

declare batchLoop.simps [simp del]

definition batchProcess ::
  "'a list \<Rightarrow> ('a \<Rightarrow> error + jsstring) \<Rightarrow> int \<Rightarrow> Config \<Rightarrow> int \<times> Config \<times> jsstring list" where
  "batchProcess items processor clock config =
     (case batchLoop items processor (IS_FREE_ACCOUNT config) 0 (clock, config, []) of
        (clock', config', results) \<Rightarrow> (clock', config', filter Boolean results))"


section \<open>Regular expressions\<close>

text \<open>
  The patterns of \<open>aiService.ts\<close> use character classes, sequencing, \<open>?\<close>, \<open>*\<close>, \<open>+\<close>,
  the anchor \<open>^\<close> and at most one capturing group. \<open>Class P\<close> matches one character on
  which \<open>P\<close> holds, \<open>Bol\<close> is \<open>^\<close> (without the \<open>m\<close> flag), \<open>Group r\<close> is the
  capturing group.
\<close>

datatype regex =
    Empty
  | Class "nat \<Rightarrow> bool"
  | Bol
  | Cat regex regex
  | Opt regex
  | Star regex
  | Group regex

text \<open>\<open>r+\<close> is \<open>r\<close> followed by \<open>r*\<close>.\<close>

definition Plus :: "regex \<Rightarrow> regex" where
  "Plus r = Cat r (Star r)"

definition Seq :: "regex list \<Rightarrow> regex" where
  "Seq rs = foldr Cat rs Empty"

definition Chr :: "char \<Rightarrow> regex" where
  "Chr c = Class (\<lambda>x. x = of_char c)"

definition NotChr :: "char \<Rightarrow> regex" where
  "NotChr c = Class (\<lambda>x. x \<noteq> of_char c)"

definition isHighSurrogate :: "nat \<Rightarrow> bool" where
  "isHighSurrogate c = (0xD800 \<le> c \<and> c \<le> 0xDBFF)"

definition isLowSurrogate :: "nat \<Rightarrow> bool" where
  "isLowSurrogate c = (0xDC00 \<le> c \<and> c \<le> 0xDFFF)"

text \<open>
  The character at the head of the rest of the input: a code unit, or with the \<open>u\<close> flag
  the code point of a surrogate pair. The result is the character and what follows it.
\<close>

fun readChar :: "bool \<Rightarrow> jsstring \<Rightarrow> (nat \<times> jsstring) option" where
  "readChar unicode [] = None"
| "readChar unicode [c] = Some (c, [])"
| "readChar unicode (c # d # s) =
     (if unicode \<and> isHighSurrogate c \<and> isLowSurrogate d
      then Some (0x10000 + (c - 0xD800) * 0x400 + (d - 0xDC00), s)
      else Some (c, d # s))"

text \<open>
  Backtracking matcher. A match state is the rest of the input still to be read and the
  text of the capturing group, if it has matched. \<open>matcher unicode r input x\<close> is the
  list of the states in which \<open>r\<close> can end when started in \<open>x\<close>, in the order in which
  backtracking tries them: quantifiers are greedy, and an iteration of \<open>*\<close> that reads
  nothing is not taken.
\<close>

type_synonym mstate = "jsstring \<times> jsstring option"

function matcher :: "bool \<Rightarrow> regex \<Rightarrow> jsstring \<Rightarrow> mstate \<Rightarrow> mstate list" where
  "matcher unicode Empty input x = [x]"
| "matcher unicode (Class P) input (s, cap) =
     (case readChar unicode s of
        None \<Rightarrow> []
      | Some (ch, s') \<Rightarrow> if P ch then [(s', cap)] else [])"
| "matcher unicode Bol input (s, cap) = (if length s = length input then [(s, cap)] else [])"
| "matcher unicode (Cat r1 r2) input x =
     concat (map (matcher unicode r2 input) (matcher unicode r1 input x))"
| "matcher unicode (Opt r) input x = matcher unicode r input x @ [x]"
| "matcher unicode (Star r) input x =
     concat (map (\<lambda>y. if length (fst y) < length (fst x)
                      then matcher unicode (Star r) input y else [])
               (matcher unicode r input x)) @ [x]"
| "matcher unicode (Group r) input (s, cap) =
     map (\<lambda>(s', cap'). (s', Some (take (length s - length s') s)))
       (matcher unicode r input (s, cap))"
  by pat_completeness auto
termination
  by (relation "measures [\<lambda>(u, r, input, x). size r, \<lambda>(u, r, input, x). length (fst x)]") auto

declare matcher.simps(6) [simp del]

text \<open>
  The result of \<open>s.match(r)\<close> for a pattern without the \<open>g\<close> flag: the index of the match,
  the matched text \<open>m[0]\<close> and the captured text \<open>m[1]\<close>. The search tries every start
  index from left to right and takes the first state the matcher finds there.
\<close>

record rmatch =
  m_index :: nat
  m_text :: jsstring
  m_group :: "jsstring option"

function exec_from :: "bool \<Rightarrow> regex \<Rightarrow> jsstring \<Rightarrow> jsstring \<Rightarrow> rmatch option" where
  "exec_from unicode r input s =
     (case matcher unicode r input (s, None) of
        (s', cap) # _ \<Rightarrow>
          Some \<lparr>m_index = length input - length s, m_text = take (length s - length s') s,
                m_group = cap\<rparr>
      | [] \<Rightarrow>
          (case readChar unicode s of
             None \<Rightarrow> None
           | Some (ch, s'') \<Rightarrow> exec_from unicode r input s''))"
  by pat_completeness auto
termination
  by (relation "measure (\<lambda>(u, r, input, s). length s)")
     (auto elim!: readChar.elims split: if_splits)

declare exec_from.simps [simp del]

definition regex_match :: "jsstring \<Rightarrow> bool \<Rightarrow> regex \<Rightarrow> rmatch option" where
  "regex_match s unicode r = exec_from unicode r s s"

text \<open>The character classes \<open>\s\<close>, \<open>.\<close>, \<open>\w\<close>, \<open>[a-z]\<close> and \<open>[\u{1F300}-\u{1F9FF}]\<close>.\<close>

definition isLineTerminator :: "nat \<Rightarrow> bool" where
  "isLineTerminator c = (c \<in> {0x0A, 0x0D, 0x2028, 0x2029})"

definition isWhiteSpace :: "nat \<Rightarrow> bool" where
  "isWhiteSpace c =
     (c \<in> {0x09, 0x0B, 0x0C, 0x20, 0xA0, 0x1680, 0x202F, 0x205F, 0x3000, 0xFEFF}
      \<or> (0x2000 \<le> c \<and> c \<le> 0x200A))"

definition isSpace :: "nat \<Rightarrow> bool" where
  "isSpace c = (isWhiteSpace c \<or> isLineTerminator c)"

definition isWord :: "nat \<Rightarrow> bool" where
  "isWord c = ((0x61 \<le> c \<and> c \<le> 0x7A) \<or> (0x41 \<le> c \<and> c \<le> 0x5A)
               \<or> (0x30 \<le> c \<and> c \<le> 0x39) \<or> c = 0x5F)"

definition space :: regex where
  "space = Class isSpace"

definition dot :: regex where
  "dot = Class (\<lambda>c. \<not> isLineTerminator c)"

definition word :: regex where
  "word = Class isWord"

definition lower :: regex where
  "lower = Class (\<lambda>c. 0x61 \<le> c \<and> c \<le> 0x7A)"

definition emojiClass :: regex where
  "emojiClass = Class (\<lambda>c. 0x1F300 \<le> c \<and> c \<le> 0x1F9FF)"


section \<open>enforceCommitType (services/aiService.ts)\<close>

datatype CommitType =
  Feat | Fix | Docs | Style | Refactor | Perf | Test | Build | Ci | Chore | Revert

fun typeString :: "CommitType \<Rightarrow> jsstring" where
  "typeString Feat = str ''feat''"
| "typeString Fix = str ''fix''"
| "typeString Docs = str ''docs''"
| "typeString Style = str ''style''"
| "typeString Refactor = str ''refactor''"
| "typeString Perf = str ''perf''"
| "typeString Test = str ''test''"
| "typeString Build = str ''build''"
| "typeString Ci = str ''ci''"
| "typeString Chore = str ''chore''"
| "typeString Revert = str ''revert''"

text \<open>\<open>/^[a-z]+(?:\([^)]+\))?:/\<close>\<close>

definition scopeMatchRegex :: regex where
  "scopeMatchRegex =
     Seq [Bol, Plus lower,
          Opt (Seq [Chr CHR ''('', Plus (NotChr CHR '')''), Chr CHR '')'']),
          Chr CHR '':'']"

text \<open>\<open>/\([^)]+\)/\<close>\<close>

definition scopeRegex :: regex where
  "scopeRegex = Seq [Chr CHR ''('', Plus (NotChr CHR '')''), Chr CHR '')'']"

text \<open>\<open>/:\s*([\u{1F300}-\u{1F9FF}])/u\<close>\<close>

definition emojiRegex :: regex where
  "emojiRegex = Seq [Chr CHR '':'', Star space, Group emojiClass]"

text \<open>\<open>/^[^:]+:\s*(?:[\u{1F300}-\u{1F9FF}]\s*)?(.+)/u\<close>\<close>

definition descriptionRegex :: regex where
  "descriptionRegex =
     Seq [Bol, Plus (NotChr CHR '':''), Chr CHR '':'', Star space,
          Opt (Seq [emojiClass, Star space]), Group (Plus dot)]"

text \<open>Extract any existing scope: the variable \<open>scope\<close>.\<close>

definition extractScope :: "jsstring \<Rightarrow> rmatch option" where
  "extractScope message =
     (let scopeMatch = regex_match message False scopeMatchRegex
      in case scopeMatch of
           None \<Rightarrow> None
         | Some m \<Rightarrow> regex_match (m_text m) False scopeRegex)"

text \<open>
  Extract emoji if present and needed: the variable \<open>emojiToKeep\<close>. A group that did
  not take part in the match is \<open>undefined\<close>, which is falsy like the empty string.
\<close>

definition extractEmoji :: "jsstring \<Rightarrow> bool \<Rightarrow> jsstring" where
  "extractEmoji message emoji =
     (if emoji then
        (case regex_match message True emojiRegex of
           None \<Rightarrow> []
         | Some emojiMatch \<Rightarrow> (case m_group emojiMatch of None \<Rightarrow> [] | Some e \<Rightarrow> e))
      else [])"

text \<open>
  Get the description part: the variable \<open>description\<close>. Appending an \<open>undefined\<close>
  group to a string appends the text \<open>undefined\<close>.
\<close>

definition extractDescription :: "jsstring \<Rightarrow> jsstring" where
  "extractDescription message =
     (let descriptionMatch = regex_match message True descriptionRegex
      in case descriptionMatch of
           None \<Rightarrow> message
         | Some m \<Rightarrow> (case m_group m of None \<Rightarrow> str ''undefined'' | Some d \<Rightarrow> d))"

definition enforceCommitType :: "jsstring \<Rightarrow> CommitType \<Rightarrow> bool \<Rightarrow> jsstring" where
  "enforceCommitType message type emoji =
     (let scope = extractScope message;
          emojiToKeep = extractEmoji message emoji;
          description = extractDescription message;
          newMessage = typeString type @ (case scope of None \<Rightarrow> [] | Some m \<Rightarrow> m_text m)
                         @ str '': '';
          newMessage = (if emoji \<and> Boolean emojiToKeep
                        then newMessage @ emojiToKeep @ str '' '' else newMessage)
      in newMessage @ description)"


section \<open>The provider services (services/*Service.ts)\<close>

record AIModelConfig =
  mc_apiKey :: jsstring
  mc_isFreeAccount :: bool
  mc_model :: jsstring

text \<open>
  A \<open>GeminiService\<close> or \<open>OpenAIService\<close> object: which of the two it is, its \<open>config\<close>
  field, and whether \<open>initialize\<close> has set its \<open>model\<close> (its \<open>client\<close>).
\<close>

record BaseAIService =
  svc_provider :: AIProvider
  svc_config :: AIModelConfig
  svc_initialized :: bool

text \<open>
  What lies outside the program: the clock, the configuration \<open>ensureConfig\<close> returns,
  the two environment variables, the provider's answer to a prompt (a text, or an error
  thrown by the client library), how long a provider call takes, the prompts sent to the
  provider so far, the error \<open>fs.writeFileSync\<close> throws, if it does, and
  \<open>String.prototype.toLowerCase\<close>, which follows the case tables of the runtime.
\<close>

record World =
  w_clock :: int
  w_config :: Config
  w_env_GEMINI_API_KEY :: "jsstring option"
  w_env_OPENAI_API_KEY :: "jsstring option"
  w_complete :: "jsstring \<Rightarrow> error + jsstring"
  w_latency :: int
  w_requests :: "jsstring list"
  w_write_error :: "error option"
  w_toLowerCase :: "jsstring \<Rightarrow> jsstring"

text \<open>An optional string in a condition: \<open>undefined\<close> and the empty string are falsy.\<close>

definition truthy :: "jsstring option \<Rightarrow> bool" where
  "truthy x = (case x of None \<Rightarrow> False | Some s \<Rightarrow> Boolean s)"

text \<open>\<open>a || b\<close> on optional strings.\<close>

definition orElse :: "jsstring option \<Rightarrow> jsstring option \<Rightarrow> jsstring option" where
  "orElse a b = (if truthy a then a else b)"

definition textOf :: "jsstring option \<Rightarrow> jsstring" where
  "textOf x = (case x of None \<Rightarrow> str ''undefined'' | Some s \<Rightarrow> s)"

definition providerString :: "AIProvider \<Rightarrow> jsstring" where
  "providerString p = (case p of Gemini \<Rightarrow> str ''gemini'' | OpenAI \<Rightarrow> str ''openai'')"

definition createService :: "AIProvider \<Rightarrow> BaseAIService" where
  "createService provider =
     \<lparr>svc_provider = provider,
      svc_config = \<lparr>mc_apiKey = [], mc_isFreeAccount = True, mc_model = []\<rparr>,
      svc_initialized = False\<rparr>"

definition initialize :: "BaseAIService \<Rightarrow> AIModelConfig \<Rightarrow> BaseAIService" where
  "initialize service config = service\<lparr>svc_config := config, svc_initialized := True\<rparr>"

text \<open>
  \<open>service.generateContent(prompt)\<close> of the two services. A call of the provider is
  recorded in \<open>w_requests\<close>.
\<close>

definition generateContent ::
  "BaseAIService \<Rightarrow> jsstring \<Rightarrow> World \<Rightarrow> (error + jsstring) \<times> World" where
  "generateContent service prompt w =
     (if \<not> svc_initialized service then
        (Inl (Error (case svc_provider service of
                       Gemini \<Rightarrow> str ''Gemini model not initialized''
                     | OpenAI \<Rightarrow> str ''OpenAI client not initialized'')), w)
      else
        (let w' = w\<lparr>w_requests := w_requests w @ [prompt],
                    w_clock := w_clock w + w_latency w\<rparr>
         in case svc_provider service of
              Gemini \<Rightarrow>
                (case w_complete w prompt of
                   Inl (Error msg) \<Rightarrow> (Inl (Error (str ''Gemini API error: '' @ msg)), w')
                 | Inr message \<Rightarrow> (Inr message, w'))
            | OpenAI \<Rightarrow>
                (case w_complete w prompt of
                   Inl (Error msg) \<Rightarrow> (Inl (Error (str ''OpenAI API error: '' @ msg)), w')
                 | Inr message \<Rightarrow>
                     if \<not> Boolean message
                     then (Inl (Error (str ''OpenAI API error: No response from OpenAI'')), w')
                     else (Inr message, w'))))"


section \<open>The class AIService (services/aiService.ts)\<close>

text \<open>
  \<open>GenerateMessageOptions\<close>. An optional flag is a \<open>bool\<close> (absent is false), an
  optional string an \<open>option\<close>. The fields carry the prefix \<open>opt_\<close>, since a record
  field is a constant and \<open>diff\<close>, \<open>scope\<close> and \<open>ref\<close> are needed as variables.
\<close>

record GenerateMessageOptions =
  opt_diff :: jsstring
  opt_multiline :: bool
  opt_useType :: bool
  opt_emoji :: bool
  opt_scope :: "jsstring option"
  opt_breaking :: bool
  opt_ref :: "jsstring option"
  opt_customPrompt :: "jsstring option"
  opt_model :: "jsstring option"

definition NO_API_KEY :: "AIProvider \<Rightarrow> jsstring" where
  "NO_API_KEY provider =
     str ''No API key found for '' @ providerString provider
       @ str ''. Please set it in the config or as an environment variable.''"

text \<open>
  \<open>initializeService\<close>: the result is the outcome and the new value of \<open>this.service\<close>,
  which is assigned before the key is looked up. \<open>selectApiKey\<close> is the constant
  \<open>apiKey\<close>: the key of the configuration, or else the one of the environment.
\<close>

definition selectApiKey :: "World \<Rightarrow> jsstring option" where
  "selectApiKey w =
     (let config = w_config w;
          envKey = (if AI_PROVIDER config = Gemini then w_env_GEMINI_API_KEY w
                    else w_env_OPENAI_API_KEY w);
          configKey = (if AI_PROVIDER config = Gemini then GEMINI_API_KEY config
                       else OPENAI_API_KEY config)
      in orElse configKey envKey)"

definition initializeService :: "World \<Rightarrow> (error + unit) \<times> BaseAIService option" where
  "initializeService w =
     (let config = w_config w;
          service = createService (AI_PROVIDER config);
          apiKey = selectApiKey w
      in if \<not> truthy apiKey then (Inl (Error (NO_API_KEY (AI_PROVIDER config))), Some service)
         else
           (let model = orElse (MODEL config)
                          (Some (if AI_PROVIDER config = Gemini then str ''gemini-2.0-flash''
                                 else str ''gpt-4.1-nano''))
            in (Inr (),
                Some (initialize service
                        \<lparr>mc_apiKey = textOf apiKey,
                         mc_isFreeAccount = IS_FREE_ACCOUNT config,
                         mc_model = textOf model\<rparr>))))"

definition buildPrompt :: "GenerateMessageOptions \<Rightarrow> jsstring" where
  "buildPrompt options =
     (if truthy (opt_customPrompt options)
      then textOf (opt_customPrompt options) @ nl @ nl @ str ''Git diff:'' @ nl @ opt_diff options
      else
        (let prompt = str ''Generate a concise git commit message for the following changes. Output only the commit message, with no extra text or formatting.'';
             prompt = (if opt_useType options
                       then prompt @ nl @ str ''Use conventional commit format with an appropriate commit type (feat, fix, docs, style, refactor, perf, test, build, ci, chore, revert).''
                       else prompt);
             prompt = (if truthy (opt_scope options)
                       then prompt @ nl @ str ''Include the scope: ('' @ textOf (opt_scope options) @ str '')''
                       else prompt);
             prompt = (if opt_breaking options
                       then prompt @ nl @ str ''This is a BREAKING CHANGE. Include a '' @ [0x22]
                              @ str ''BREAKING CHANGE:'' @ [0x22] @ str '' footer with details.''
                       else prompt);
             prompt = (if truthy (opt_ref options)
                       then prompt @ nl @ str '' Include a reference to '' @ textOf (opt_ref options)
                              @ str '' in the footer.''
                       else prompt);
             prompt = (if opt_emoji options
                       then prompt @ nl @ str ''Include a relevant emoji at the start.''
                       else prompt);
             prompt = (if opt_multiline options
                       then prompt @ nl @ str ''Provide a detailed description in the commit body.''
                       else prompt)
         in prompt @ nl @ nl @ str ''Git diff:'' @ nl @ opt_diff options))"

text \<open>\<open>s.trim()\<close>\<close>

definition trim :: "jsstring \<Rightarrow> jsstring" where
  "trim s = rev (dropWhile isSpace (rev (dropWhile isSpace s)))"

text \<open>
  The lower-casing of the letters A to Z alone. It is what \<open>toLowerCase\<close> does on ASCII
  text and stands for the runtime's function in the examples; the functions below take
  the runtime's function as the parameter \<open>toLowerCase\<close>.
\<close>

definition asciiLowerCase :: "jsstring \<Rightarrow> jsstring" where
  "asciiLowerCase s = map (\<lambda>c. if 0x41 \<le> c \<and> c \<le> 0x5A then c + 0x20 else c) s"

text \<open>
  The replacement text of \<open>s.replace(regex, template)\<close> for a pattern with one capturing
  group: \<open>$$\<close>, \<open>$&\<close>, \<open>$`\<close>, \<open>$'\<close>, \<open>$1\<close> and \<open>$01\<close> are substituted, any other \<open>$\<close> stands
  for itself.
\<close>

fun getSubstitution ::
  "jsstring \<Rightarrow> jsstring \<Rightarrow> jsstring \<Rightarrow> jsstring option \<Rightarrow> jsstring \<Rightarrow> jsstring" where
  "getSubstitution matched before after grp [] = []"
| "getSubstitution matched before after grp [c] = [c]"
| "getSubstitution matched before after grp (c # d # t) =
     (if c \<noteq> 0x24 then c # getSubstitution matched before after grp (d # t)
      else if d = 0x24 then 0x24 # getSubstitution matched before after grp t
      else if d = 0x26 then matched @ getSubstitution matched before after grp t
      else if d = 0x60 then before @ getSubstitution matched before after grp t
      else if d = 0x27 then after @ getSubstitution matched before after grp t
      else if d = 0x31
        then (case grp of None \<Rightarrow> [] | Some g \<Rightarrow> g) @ getSubstitution matched before after grp t
      else if d = 0x30 \<and> t \<noteq> [] \<and> hd t = 0x31
        then (case grp of None \<Rightarrow> [] | Some g \<Rightarrow> g)
               @ getSubstitution matched before after grp (tl t)
      else c # getSubstitution matched before after grp (d # t))"

definition replace_regex :: "jsstring \<Rightarrow> bool \<Rightarrow> regex \<Rightarrow> jsstring \<Rightarrow> jsstring" where
  "replace_regex s unicode r template =
     (case regex_match s unicode r of
        None \<Rightarrow> s
      | Some m \<Rightarrow>
          (let before = take (m_index m) s;
               after = drop (m_index m + length (m_text m)) s
           in before @ getSubstitution (m_text m) before after (m_group m) template @ after))"

text \<open>\<open>/^(\w+:)/\<close>\<close>

definition typeColonRegex :: regex where
  "typeColonRegex = Seq [Bol, Group (Seq [Plus word, Chr CHR '':''])]"

text \<open>Add scope if specified.\<close>

definition addScope :: "jsstring option \<Rightarrow> jsstring \<Rightarrow> jsstring" where
  "addScope scope formattedMessage =
     (if truthy scope
      then replace_regex formattedMessage False typeColonRegex
             (str ''$1('' @ textOf scope @ str '')'')
      else formattedMessage)"

text \<open>Add breaking change marker if needed.\<close>

definition BREAKING_CHANGE :: jsstring where
  "BREAKING_CHANGE = str ''BREAKING CHANGE''"

definition addBreakingChange :: "bool \<Rightarrow> jsstring \<Rightarrow> jsstring" where
  "addBreakingChange breaking formattedMessage =
     (if breaking \<and> \<not> includes_str formattedMessage BREAKING_CHANGE
      then replace formattedMessage (nl @ nl) (nl @ nl @ str ''BREAKING CHANGE: '')
      else formattedMessage)"

text \<open>Add issue/PR reference if needed.\<close>

definition addRef ::
  "(jsstring \<Rightarrow> jsstring) \<Rightarrow> jsstring option \<Rightarrow> jsstring \<Rightarrow> jsstring" where
  "addRef toLowerCase ref formattedMessage =
     (if truthy ref \<and> \<not> includes_str (toLowerCase formattedMessage) (toLowerCase (textOf ref))
      then formattedMessage @ nl @ nl @ str ''Refs: '' @ textOf ref
      else formattedMessage)"

text \<open>Format the message based on options.\<close>

definition formatMessage ::
  "(jsstring \<Rightarrow> jsstring) \<Rightarrow> GenerateMessageOptions \<Rightarrow> jsstring \<Rightarrow> jsstring" where
  "formatMessage toLowerCase options message =
     (let formattedMessage = trim message;
          formattedMessage = addScope (opt_scope options) formattedMessage;
          formattedMessage = addBreakingChange (opt_breaking options) formattedMessage;
          formattedMessage = addRef toLowerCase (opt_ref options) formattedMessage
      in formattedMessage)"

text \<open>\<open>ConfigCommand.saveConfig\<close>: the write fails with the error of the file system, or
  replaces the stored configuration.\<close>

definition saveConfig :: "Config \<Rightarrow> World \<Rightarrow> (error + unit) \<times> World" where
  "saveConfig config w =
     (case w_write_error w of
        Some (Error msg) \<Rightarrow> (Inl (Error (str ''Failed to write config file: '' @ msg)), w)
      | None \<Rightarrow> (Inr (), w\<lparr>w_config := config\<rparr>))"

definition RATE_LIMIT_EXCEEDED :: jsstring where
  "RATE_LIMIT_EXCEEDED =
     str ''Rate limit exceeded. Please wait 1 minute between requests on free accounts.''"

text \<open>
  The body of the \<open>try\<close> block of \<open>AIService.generateCommitMessage\<close>. The state is
  \<open>this.service\<close> and the world; the warnings printed to the console are left out.
\<close>

definition generateCommitMessage_try ::
  "GenerateMessageOptions \<Rightarrow> BaseAIService option \<times> World
     \<Rightarrow> (error + jsstring) \<times> BaseAIService option \<times> World" where
  "generateCommitMessage_try options st =
     (case st of (service0, w) \<Rightarrow>
      case (if service0 = None then initializeService w else (Inr (), service0)) of
        (Inl e, service) \<Rightarrow> (Inl e, service, w)
      | (Inr u, service) \<Rightarrow>
          (let config = w_config w in
           if IS_FREE_ACCOUNT config
              \<and> w_clock w - orZero (LAST_REQUEST_TIME config) < 60000
           then (Inl (Error RATE_LIMIT_EXCEEDED), service, w)
           else
             (let prompt = buildPrompt options in
              case service of
                None \<Rightarrow> (Inl (Error (str ''AI service not initialized'')), service, w)
              | Some svc \<Rightarrow>
                  (case generateContent svc prompt w of
                     (Inl e, w1) \<Rightarrow> (Inl e, service, w1)
                   | (Inr message, w1) \<Rightarrow>
                       (let formattedMessage = formatMessage (w_toLowerCase w) options message in
                        if IS_FREE_ACCOUNT config then
                          (case saveConfig (config\<lparr>LAST_REQUEST_TIME := Some (w_clock w1)\<rparr>) w1 of
                             (Inl e, w2) \<Rightarrow> (Inl e, service, w2)
                           | (Inr u, w2) \<Rightarrow> (Inr formattedMessage, service, w2))
                        else (Inr formattedMessage, service, w1))))))"

text \<open>The \<open>catch\<close> clause wraps every error of the body.\<close>

definition generateCommitMessage ::
  "GenerateMessageOptions \<Rightarrow> BaseAIService option \<times> World
     \<Rightarrow> (error + jsstring) \<times> BaseAIService option \<times> World" where
  "generateCommitMessage options st =
     (case generateCommitMessage_try options st of
        (Inl (Error msg), st') \<Rightarrow>
          (Inl (Error (str ''Failed to generate commit message: '' @ msg)), st')
      | (Inr formattedMessage, st') \<Rightarrow> (Inr formattedMessage, st'))"


section \<open>Facts about the string operations\<close>




lemma split_from_skip:
  "sep \<noteq> [] \<Longrightarrow> hd sep \<notin> set xs \<Longrightarrow>
     split_from sep acc (xs @ rest) = split_from sep (acc @ xs) rest"
proof (induction xs arbitrary: acc)
  case Nil
  then show ?case by simp
next
  case (Cons x xs)
  then have "\<not> prefix sep (x # xs @ rest)"
    by (cases sep) auto
  with Cons show ?case by simp
qed

lemma split_from_sep:
  "sep \<noteq> [] \<Longrightarrow> split_from sep acc (sep @ rest) = acc # split_from sep [] rest"
  by (cases sep) auto


section \<open>The packing loop groups whole pieces\<close>




section \<open>The chunks and the file sections of the diff\<close>







text \<open>
  The file sections of the specification cut the diff and change nothing in it.
\<close>

lemma concat_cutAtDelimiterLines:
  "concat (cutAtDelimiterLines current bol s) = current @ s"
  by (induction current bol s rule: cutAtDelimiterLines.induct) auto

lemma concat_specFileSections: "concat (specFileSections diff) = diff"
proof -
  have "concat (filter (\<lambda>s. s \<noteq> []) xs) = concat xs" for xs :: "jsstring list"
    by (induction xs) auto
  then show ?thesis
    by (simp add: specFileSections_def concat_cutAtDelimiterLines)
qed

text \<open>
  \<open>delimitersStartLines\<close> in words: wherever the delimiter occurs, it is at the start of
  the text (if that begins a line) or right after a newline, and something follows it.
\<close>

lemma delimitersStartLines_iff:
  "delimitersStartLines bol s \<longleftrightarrow>
     (\<forall>p q. s = p @ DIFF_GIT @ q \<longrightarrow> (if p = [] then bol else last p = 0x0A) \<and> q \<noteq> [])"
proof (induction s arbitrary: bol)
  case Nil
  then show ?case by (simp add: DIFF_GIT_def str_def)
next
  case (Cons c cs)
  have len: "length DIFF_GIT = 10" by (simp add: DIFF_GIT_def str_def)
  show ?case
  proof
    assume wf: "delimitersStartLines bol (c # cs)"
    show "\<forall>p q. c # cs = p @ DIFF_GIT @ q \<longrightarrow> (if p = [] then bol else last p = 0x0A) \<and> q \<noteq> []"
    proof (intro allI impI)
      fix p q
      assume dec: "c # cs = p @ DIFF_GIT @ q"
      show "(if p = [] then bol else last p = 0x0A) \<and> q \<noteq> []"
      proof (cases p)
        case Nil
        with dec have "prefix DIFF_GIT (c # cs)" by (simp add: prefix_def)
        with wf have "bol" "length DIFF_GIT \<le> length cs" by auto
        moreover from dec Nil have "length (c # cs) = length DIFF_GIT + length q" by simp
        ultimately show ?thesis using Nil by auto
      next
        case (Cons a p')
        with dec have "cs = p' @ DIFF_GIT @ q" "a = c" by auto
        moreover from wf have "delimitersStartLines (c = 0x0A) cs" by simp
        ultimately have "(if p' = [] then c = 0x0A else last p' = 0x0A) \<and> q \<noteq> []"
          using Cons.IH by blast
        with Cons \<open>a = c\<close> show ?thesis by (cases "p' = []") auto
      qed
    qed
  next
    assume all: "\<forall>p q. c # cs = p @ DIFF_GIT @ q \<longrightarrow> (if p = [] then bol else last p = 0x0A) \<and> q \<noteq> []"
    have first: "bol \<and> length DIFF_GIT \<le> length cs" if "prefix DIFF_GIT (c # cs)"
    proof -
      from that obtain q where q: "c # cs = [] @ DIFF_GIT @ q" by (auto simp: prefix_def)
      with all have "(if ([] :: jsstring) = [] then bol else last ([] :: jsstring) = 0x0A) \<and> q \<noteq> []"
        by blast
      then have "bol" "q \<noteq> []" by simp_all
      moreover from q have "length (c # cs) = length DIFF_GIT + length q" by simp
      ultimately show ?thesis using len by (cases q) auto
    qed
    have "\<forall>p q. cs = p @ DIFF_GIT @ q \<longrightarrow> (if p = [] then c = 0x0A else last p = 0x0A) \<and> q \<noteq> []"
    proof (intro allI impI)
      fix p q
      assume "cs = p @ DIFF_GIT @ q"
      then have "c # cs = (c # p) @ DIFF_GIT @ q" by simp
      with all have "(if c # p = [] then bol else last (c # p) = 0x0A) \<and> q \<noteq> []" by blast
      then show "(if p = [] then c = 0x0A else last p = 0x0A) \<and> q \<noteq> []" by (cases "p = []") auto
    qed
    then have "delimitersStartLines (c = 0x0A) cs" using Cons.IH by blast
    with first show "delimitersStartLines bol (c # cs)" by simp
  qed
qed




text \<open>
  The delimiter inside a line: the code cuts the line in two and the chunk has a newline
  in the middle of it, where the specification sees one file section.
\<close>

lemma splitDiffIntoChunks_cuts_quoted_delimiter:
  "splitDiffIntoChunks (str ''diff --git a/x b/x'' @ nl @ str ''+see diff --git here'' @ nl)
     = [str ''diff --git a/x b/x'' @ nl @ str ''+see '' @ nl @ str ''diff --git here'' @ nl]
   \<and> specFileSections (str ''diff --git a/x b/x'' @ nl @ str ''+see diff --git here'' @ nl)
     = [str ''diff --git a/x b/x'' @ nl @ str ''+see diff --git here'' @ nl]"
  by (simp add: splitDiffIntoChunks_def fileSections_def split_def specFileSections_def
        DIFF_GIT_def str_def nl_def Boolean_def MAX_DIFF_LENGTH_def)


section \<open>A chunk can be one code unit too long\<close>

lemma split_from_sections:
  assumes "sep \<noteq> []"
  shows "hd sep \<notin> set x \<Longrightarrow> \<forall>y\<in>set xs. hd sep \<notin> set y \<Longrightarrow>
     split_from sep acc (x @ concat (map (\<lambda>y. sep @ y) xs)) = (acc @ x) # xs"
proof (induction xs arbitrary: acc x)
  case Nil
  have "split_from sep acc (x @ []) = split_from sep (acc @ x) []"
    using assms Nil(1) by (rule split_from_skip)
  then show ?case by simp
next
  case (Cons y ys)
  have "split_from sep acc (x @ (sep @ y @ concat (map (\<lambda>y. sep @ y) ys)))
          = split_from sep (acc @ x) (sep @ y @ concat (map (\<lambda>y. sep @ y) ys))"
    using assms Cons.prems(1) by (rule split_from_skip)
  also have "\<dots> = (acc @ x) # split_from sep [] (y @ concat (map (\<lambda>y. sep @ y) ys))"
    using assms by (rule split_from_sep)
  also have "split_from sep [] (y @ concat (map (\<lambda>y. sep @ y) ys)) = ([] @ y) # ys"
    using Cons.prems(2) by (intro Cons.IH) auto
  finally show ?case by simp
qed

lemma fileSections_concat:
  assumes "\<forall>y\<in>set xs. 100 \<notin> set y \<and> y \<noteq> []"
  shows "fileSections (concat (map (\<lambda>y. DIFF_GIT @ y) xs)) = xs"
proof -
  have sep: "DIFF_GIT \<noteq> []" "hd DIFF_GIT = 100"
    by (simp_all add: DIFF_GIT_def str_def)
  have "split_from DIFF_GIT [] ([] @ concat (map (\<lambda>y. DIFF_GIT @ y) xs)) = ([] @ []) # xs"
    using sep assms by (intro split_from_sections) auto
  then have "split (concat (map (\<lambda>y. DIFF_GIT @ y) xs)) DIFF_GIT = [] # xs"
    using sep by (simp add: split_def)
  moreover have "filter Boolean xs = xs"
    using assms by (simp add: Boolean_def)
  ultimately show ?thesis
    by (simp add: fileSections_def Boolean_def)
qed

text \<open>
  What the loop does guarantee: a chunk is at most one code unit longer than
  \<open>MAX_DIFF_LENGTH\<close> (the newline the length test leaves out), or it is a single file
  section.
\<close>

lemma chunkLoop_bound:
  assumes "\<forall>c\<in>set chunks. length c \<le> MAX_DIFF_LENGTH + 1 \<or> c \<in> S"
    and "length cur \<le> MAX_DIFF_LENGTH + 1 \<or> cur \<in> S"
    and "\<forall>s\<in>set secs. DIFF_GIT @ s \<in> S"
  shows "case chunkLoop secs (chunks, cur) of (chunks', cur') \<Rightarrow>
           (\<forall>c\<in>set chunks'. length c \<le> MAX_DIFF_LENGTH + 1 \<or> c \<in> S)
           \<and> (length cur' \<le> MAX_DIFF_LENGTH + 1 \<or> cur' \<in> S)"
  using assms
proof (induction secs arbitrary: chunks cur)
  case Nil
  then show ?case by simp
next
  case (Cons s secs)
  show ?case
  proof (cases "length cur + length (DIFF_GIT @ s) > MAX_DIFF_LENGTH")
    case True
    have "case chunkLoop secs (if Boolean cur then chunks @ [cur] else chunks, DIFF_GIT @ s) of
            (chunks', cur') \<Rightarrow>
           (\<forall>c\<in>set chunks'. length c \<le> MAX_DIFF_LENGTH + 1 \<or> c \<in> S)
           \<and> (length cur' \<le> MAX_DIFF_LENGTH + 1 \<or> cur' \<in> S)"
      using Cons.prems by (intro Cons.IH) auto
    with True show ?thesis by simp
  next
    case False
    have "case chunkLoop secs (chunks, cur @ (if Boolean cur then nl else []) @ DIFF_GIT @ s) of
            (chunks', cur') \<Rightarrow>
           (\<forall>c\<in>set chunks'. length c \<le> MAX_DIFF_LENGTH + 1 \<or> c \<in> S)
           \<and> (length cur' \<le> MAX_DIFF_LENGTH + 1 \<or> cur' \<in> S)"
      using Cons.prems False by (intro Cons.IH) (auto simp: nl_def)
    with False show ?thesis by simp
  qed
qed

lemma splitDiffIntoChunks_bound:
  "c \<in> set (splitDiffIntoChunks diff) \<Longrightarrow>
     length c \<le> MAX_DIFF_LENGTH + 1 \<or> c \<in> set (fullSections diff)"
  using chunkLoop_bound [of "[]" "set (fullSections diff)" "[]" "fileSections diff"]
  by (auto simp: splitDiffIntoChunks_def fullSections_def split: prod.splits if_splits)

text \<open>
  C2. Every chunk has length at most \<open>MAX_DIFF_LENGTH\<close> = 15000 unless it is a lone
  oversized file section. The code does not keep this bound. Take the diff of 60000 code
  units (above \<open>CHUNK_THRESHOLD\<close>, so that it is chunked) made of eight file sections
  of 7500 code units each: the length test \<open>7500 + 7500 > 15000\<close> fails, the second
  section of each pair is appended after a newline, and each of the four chunks returned
  holds two sections and has 15001 code units.
\<close>

theorem splitDiffIntoChunks_overlong_chunks:
  "splitDiffIntoChunks (concat (map (\<lambda>y. DIFF_GIT @ y) (replicate 8 (replicate 7490 0x61))))
     = replicate 4 (DIFF_GIT @ replicate 7490 0x61 @ nl @ DIFF_GIT @ replicate 7490 0x61)
   \<and> length (concat (map (\<lambda>y. DIFF_GIT @ y) (replicate 8 (replicate 7490 0x61)))) = 60000
   \<and> length (DIFF_GIT @ replicate 7490 0x61 @ nl @ DIFF_GIT @ replicate 7490 0x61) = 15001
   \<and> MAX_DIFF_LENGTH = 15000 \<and> CHUNK_THRESHOLD = 50000"
proof -
  have len: "length DIFF_GIT = 10"
    by (simp add: DIFF_GIT_def str_def)
  have secs: "fileSections (concat (map (\<lambda>y. DIFF_GIT @ y) (replicate 8 (replicate 7490 0x61))))
      = replicate 8 (replicate 7490 0x61)"
    by (rule fileSections_concat) simp
  have eight: "replicate 8 x = [x, x, x, x, x, x, x, x]" for x :: jsstring
    by (simp add: eval_nat_numeral)
  have four: "replicate 4 x = [x, x, x, x]" for x :: jsstring
    by (simp add: eval_nat_numeral)
  have "splitDiffIntoChunks (concat (map (\<lambda>y. DIFF_GIT @ y) (replicate 8 (replicate 7490 0x61))))
     = replicate 4 (DIFF_GIT @ replicate 7490 0x61 @ nl @ DIFF_GIT @ replicate 7490 0x61)"
    unfolding splitDiffIntoChunks_def secs
    by (simp add: eight four len Boolean_def MAX_DIFF_LENGTH_def nl_def Let_def)
  moreover have "length (concat (map (\<lambda>y. DIFF_GIT @ y) (replicate 8 (replicate 7490 0x61)))) = 60000"
    by (simp add: eight len)
  ultimately show ?thesis
    by (simp add: len nl_def MAX_DIFF_LENGTH_def CHUNK_THRESHOLD_def)
qed


section \<open>batchProcess returns the results of the items that succeed, in order\<close>

lemma batchLoop_results:
  "snd (snd (batchLoop items processor free i (clock, config, results)))
     = results @ map (settle processor) (drop i items)"
proof (induction items processor free i "(clock, config, results)"
         arbitrary: clock config results rule: batchLoop.induct)
  case (1 items processor free i clock config results)
  show ?case
  proof (cases "i < length items")
    case True
    obtain clock' config' where rl: "rateLimiter clock config = (clock', config')"
      by (cases "rateLimiter clock config")
    let ?K = "MAX_CONCURRENT_REQUESTS free"
    let ?batch = "slice items i (i + ?K)"
    have step: "batchLoop items processor free i (clock, config, results)
        = batchLoop items processor free (i + ?K)
            (clock', config', results @ map (settle processor) ?batch)"
      using True rl by (subst batchLoop.simps) (simp add: Let_def)
    have "snd (snd (batchLoop items processor free (i + ?K)
             (clock', config', results @ map (settle processor) ?batch)))
          = (results @ map (settle processor) ?batch)
              @ map (settle processor) (drop (i + ?K) items)"
      using True rl by (intro "1.hyps") auto
    also have "\<dots> = results
        @ map (settle processor) (take ?K (drop i items) @ drop ?K (drop i items))"
      by (simp add: slice_def add.commute)
    also have "\<dots> = results @ map (settle processor) (drop i items)"
      by (simp only: append_take_drop_id)
    finally show ?thesis
      by (simp only: step)
  next
    case False
    then show ?thesis by (subst batchLoop.simps) simp
  qed
qed

lemma batchProcess_results:
  "snd (snd (batchProcess items processor clock config))
     = filter Boolean (map (settle processor) items)"
proof -
  obtain clock' config' results
    where loop: "batchLoop items processor (IS_FREE_ACCOUNT config) 0 (clock, config, [])
                   = (clock', config', results)"
    by (metis prod_cases3)
  with batchLoop_results [of items processor "IS_FREE_ACCOUNT config" 0 clock config "[]"]
  have "results = map (settle processor) items" by simp
  with loop show ?thesis by (simp add: batchProcess_def)
qed

lemma filter_settle:
  assumes "\<forall>item\<in>set items. \<forall>s. processor item = Inr s \<longrightarrow> s \<noteq> []"
  shows "filter Boolean (map (settle processor) items)
     = List.map_filter (\<lambda>item. case processor item of Inl e \<Rightarrow> None | Inr s \<Rightarrow> Some s) items"
  using assms
  by (induction items)
     (auto simp: List.map_filter_simps settle_def Boolean_def split: sum.splits)

lemma length_map_filter_sum:
  "length (List.map_filter (\<lambda>item. case processor item of Inl e \<Rightarrow> None | Inr s \<Rightarrow> Some s) items)
     = length items - length (filter (\<lambda>item. isl (processor item)) items)"
proof (induction items)
  case Nil
  then show ?case by (simp add: List.map_filter_simps)
next
  case (Cons a items)
  have "length (filter (\<lambda>item. isl (processor item)) items) \<le> length items"
    by simp
  with Cons show ?case
    by (cases "processor a") (auto simp: List.map_filter_simps Suc_diff_le)
qed

text \<open>
  C3. For every list of items, either window size (2 on a free account, 5 otherwise) and
  every processor that returns a non-empty string on each item it does not fail on,
  \<open>batchProcess\<close> returns exactly the strings of the succeeding items, in the order of
  the items; its length is the number of items minus the number of failing items.
\<close>

theorem batchProcess_drops_failures:
  assumes "\<forall>item\<in>set items. \<forall>s. processor item = Inr s \<longrightarrow> s \<noteq> []"
  shows "snd (snd (batchProcess items processor clock config))
           = List.map_filter (\<lambda>item. case processor item of Inl e \<Rightarrow> None | Inr s \<Rightarrow> Some s) items
       \<and> length (snd (snd (batchProcess items processor clock config)))
           = length items - length (filter (\<lambda>item. isl (processor item)) items)"
  using assms by (simp add: batchProcess_results filter_settle length_map_filter_sum)

theorem batchProcess_drops_failures_witness:
  "snd (snd (batchProcess [1::nat, 2, 3, 4, 5, 6, 7]
        (\<lambda>n. if even n then Inl (Error (str ''boom'')) else Inr [n]) 1700000000000
        \<lparr>AI_PROVIDER = Gemini, GEMINI_API_KEY = Some (str ''k''), OPENAI_API_KEY = None,
         IS_FREE_ACCOUNT = True, LAST_REQUEST_TIME = Some 1699999999000, MODEL = None\<rparr>))
     = [[1], [3], [5], [7]]
   \<and> length (snd (snd (batchProcess [1::nat, 2, 3, 4, 5, 6, 7]
        (\<lambda>n. if even n then Inl (Error (str ''boom'')) else Inr [n]) 1700000000000
        \<lparr>AI_PROVIDER = Gemini, GEMINI_API_KEY = Some (str ''k''), OPENAI_API_KEY = None,
         IS_FREE_ACCOUNT = True, LAST_REQUEST_TIME = Some 1699999999000, MODEL = None\<rparr>))) = 7 - 3"
  using batchProcess_drops_failures [of "[1::nat, 2, 3, 4, 5, 6, 7]"
        "\<lambda>n. if even n then Inl (Error (str ''boom'')) else Inr [n]" 1700000000000
        "\<lparr>AI_PROVIDER = Gemini, GEMINI_API_KEY = Some (str ''k''), OPENAI_API_KEY = None,
         IS_FREE_ACCOUNT = True, LAST_REQUEST_TIME = Some 1699999999000, MODEL = None\<rparr>"]
  by (simp add: List.map_filter_simps)


section \<open>The rate limiter stores the time of entry\<close>

lemma rateLimiter_stores_entry_time:
  "IS_FREE_ACCOUNT config \<Longrightarrow>
     LAST_REQUEST_TIME (snd (rateLimiter clock config)) = Some clock"
  by (simp add: rateLimiter_def Let_def)

lemma rateLimiter_returns_later:
  "IS_FREE_ACCOUNT config \<Longrightarrow> clock - orZero (LAST_REQUEST_TIME config) < FREE_ACCOUNT_COOLDOWN \<Longrightarrow>
     clock < fst (rateLimiter clock config)"
  by (simp add: rateLimiter_def Let_def timerDelay_def)

text \<open>
  C4. On a free account the stored last-request time equals the time at which the
  throttle returns. The code stores \<open>now\<close>, read before the wait: called at time
  1700000000000 with a last request 1000 ms earlier, the throttle waits 59000 ms and
  returns at 1700000059000, but stores 1700000000000.
\<close>

theorem rateLimiter_stale_timestamp:
  "rateLimiter 1700000000000
     \<lparr>AI_PROVIDER = Gemini, GEMINI_API_KEY = Some (str ''key''), OPENAI_API_KEY = None,
      IS_FREE_ACCOUNT = True, LAST_REQUEST_TIME = Some 1699999999000, MODEL = None\<rparr>
   = (1700000059000,
     \<lparr>AI_PROVIDER = Gemini, GEMINI_API_KEY = Some (str ''key''), OPENAI_API_KEY = None,
      IS_FREE_ACCOUNT = True, LAST_REQUEST_TIME = Some 1700000000000, MODEL = None\<rparr>)"
  by (simp add: rateLimiter_def orZero_def FREE_ACCOUNT_COOLDOWN_def timerDelay_def)

text \<open>
  The effect on the spacing: a call that follows 1000 ms after that return measures
  60000 ms since the stored time and does not wait at all.
\<close>

lemma rateLimiter_next_call_does_not_wait:
  "fst (rateLimiter 1700000060000 (snd (rateLimiter 1700000000000
     \<lparr>AI_PROVIDER = Gemini, GEMINI_API_KEY = Some (str ''key''), OPENAI_API_KEY = None,
      IS_FREE_ACCOUNT = True, LAST_REQUEST_TIME = Some 1699999999000, MODEL = None\<rparr>)))
     = 1700000060000"
  by (simp add: rateLimiter_def orZero_def FREE_ACCOUNT_COOLDOWN_def timerDelay_def)


section \<open>enforceCommitType on the example of the specification\<close>

lemmas regex_defs = scopeMatchRegex_def scopeRegex_def emojiRegex_def descriptionRegex_def
  typeColonRegex_def Seq_def Plus_def Chr_def NotChr_def space_def dot_def emojiClass_def
  lower_def word_def isLineTerminator_def isWhiteSpace_def isSpace_def isWord_def
  isHighSurrogate_def isLowSurrogate_def

lemmas enforce_defs = enforceCommitType_def extractScope_def extractEmoji_def
  extractDescription_def regex_match_def exec_from.simps matcher.simps str_def Boolean_def
  nl_def

text \<open>
  C7. \<open>enforceCommitType\<close> on the message \<open>fix(api): \<close> U+1F41B \<open> old desc\<close> (the bug
  emoji is the surrogate pair D83D DC1B) with the type \<open>feat\<close> returns
  \<open>feat(api): \<close> U+1F41B \<open> old desc\<close> with emoji enabled and \<open>feat(api): old desc\<close> with
  emoji disabled.
\<close>

theorem enforceCommitType_example:
  "enforceCommitType (str ''fix(api): '' @ [0xD83D, 0xDC1B] @ str '' old desc'') Feat True
     = str ''feat(api): '' @ [0xD83D, 0xDC1B] @ str '' old desc''
   \<and> enforceCommitType (str ''fix(api): '' @ [0xD83D, 0xDC1B] @ str '' old desc'') Feat False
     = str ''feat(api): old desc''"
  by (simp add: enforce_defs regex_defs)


section \<open>The breaking-change marker\<close>

lemma includes_str_iff: "includes_str s t \<longleftrightarrow> (\<exists>p q. s = p @ t @ q)"
proof (induction s)
  case Nil
  then show ?case by auto
next
  case (Cons c cs)
  show ?case
  proof
    assume "includes_str (c # cs) t"
    then consider "prefix t (c # cs)" | "includes_str cs t" by auto
    then show "\<exists>p q. c # cs = p @ t @ q"
    proof cases
      case 1
      then obtain q where "c # cs = t @ q" by (auto simp: prefix_def)
      then have "c # cs = [] @ t @ q" by simp
      then show ?thesis by blast
    next
      case 2
      with Cons obtain p q where "cs = p @ t @ q" by auto
      then have "c # cs = (c # p) @ t @ q" by simp
      then show ?thesis by blast
    qed
  next
    assume "\<exists>p q. c # cs = p @ t @ q"
    then obtain p q where pq: "c # cs = p @ t @ q" by blast
    show "includes_str (c # cs) t"
    proof (cases p)
      case Nil
      with pq have "prefix t (c # cs)" by (simp add: prefix_def)
      then show ?thesis by simp
    next
      case (Cons a p')
      with pq have "cs = p' @ t @ q" by simp
      with Cons.IH have "includes_str cs t" by blast
      then show ?thesis by simp
    qed
  qed
qed

lemma replace_absent: "\<not> includes_str s pat \<Longrightarrow> replace s pat rep = s"
  by (induction s) auto

lemma replace_present:
  "includes_str s pat \<Longrightarrow> \<exists>p q. s = p @ pat @ q \<and> replace s pat rep = p @ rep @ q"
proof (induction s)
  case Nil
  then show ?case by auto
next
  case (Cons c cs)
  show ?case
  proof (cases "prefix pat (c # cs)")
    case True
    then obtain q where q: "c # cs = pat @ q" by (auto simp: prefix_def)
    then have "drop (length pat) (c # cs) = q" by (metis append_eq_conv_conj)
    moreover have "replace (c # cs) pat rep = rep @ drop (length pat) (c # cs)"
      using True by simp
    ultimately have "c # cs = [] @ pat @ q \<and> replace (c # cs) pat rep = [] @ rep @ q"
      using q by simp
    then show ?thesis by blast
  next
    case False
    with Cons.prems have "includes_str cs pat" by simp
    with Cons.IH obtain p q where "cs = p @ pat @ q" "replace cs pat rep = p @ rep @ q"
      by blast
    with False have "c # cs = (c # p) @ pat @ q \<and> replace (c # cs) pat rep = (c # p) @ rep @ q"
      by simp
    then show ?thesis by blast
  qed
qed

lemma addBreakingChange_marks:
  assumes "includes_str m (nl @ nl)"
  shows "includes_str (addBreakingChange True m) BREAKING_CHANGE"
proof (cases "includes_str m BREAKING_CHANGE")
  case True
  then show ?thesis by (simp add: addBreakingChange_def)
next
  case False
  from replace_present [OF assms, of "nl @ nl @ str ''BREAKING CHANGE: ''"]
  obtain p q where "replace m (nl @ nl) (nl @ nl @ str ''BREAKING CHANGE: '') = p @ (nl @ nl @ str ''BREAKING CHANGE: '') @ q"
    by blast
  then have "replace m (nl @ nl) (nl @ nl @ str ''BREAKING CHANGE: '')
               = (p @ nl @ nl) @ BREAKING_CHANGE @ (str '': '' @ q)"
    by (simp add: BREAKING_CHANGE_def str_def)
  then have "includes_str (replace m (nl @ nl) (nl @ nl @ str ''BREAKING CHANGE: '')) BREAKING_CHANGE"
    unfolding includes_str_iff by blast
  with False show ?thesis by (simp add: addBreakingChange_def)
qed

lemma addBreakingChange_idem:
  "addBreakingChange breaking (addBreakingChange breaking m) = addBreakingChange breaking m"
proof (cases "breaking \<and> \<not> includes_str m BREAKING_CHANGE")
  case False
  then show ?thesis by (auto simp: addBreakingChange_def)
next
  case True
  show ?thesis
  proof (cases "includes_str m (nl @ nl)")
    case True
    from addBreakingChange_marks [OF this]
    show ?thesis using \<open>breaking \<and> \<not> includes_str m BREAKING_CHANGE\<close>
      by (simp add: addBreakingChange_def)
  next
    case False
    then have "addBreakingChange breaking m = m"
      by (simp add: addBreakingChange_def replace_absent)
    then show ?thesis by simp
  qed
qed

text \<open>
  C8. With \<open>breaking\<close> set, a message that already contains \<open>BREAKING CHANGE\<close> is left
  unchanged by the breaking-change step; and the step is idempotent for every message and
  either value of the flag, so applying it twice never inserts the marker twice.
\<close>

theorem breaking_change_idempotent:
  "(includes_str m BREAKING_CHANGE \<longrightarrow> addBreakingChange True m = m)
   \<and> addBreakingChange breaking (addBreakingChange breaking m) = addBreakingChange breaking m"
  by (simp add: addBreakingChange_idem) (simp add: addBreakingChange_def)

theorem breaking_change_idempotent_witness:
  "includes_str (str ''feat: drop v1'' @ nl @ nl @ str ''BREAKING CHANGE: no v1'') BREAKING_CHANGE
   \<and> addBreakingChange True (str ''feat: drop v1'' @ nl @ nl @ str ''BREAKING CHANGE: no v1'')
       = str ''feat: drop v1'' @ nl @ nl @ str ''BREAKING CHANGE: no v1''
   \<and> addBreakingChange True (addBreakingChange True (str ''feat: drop v1'' @ nl @ nl @ str ''body''))
       = str ''feat: drop v1'' @ nl @ nl @ str ''BREAKING CHANGE: body''"
  using breaking_change_idempotent [of "str ''feat: drop v1'' @ nl @ nl @ str ''BREAKING CHANGE: no v1''" True]
    breaking_change_idempotent [of "str ''feat: drop v1'' @ nl @ nl @ str ''body''" True]
  by (simp add: addBreakingChange_def BREAKING_CHANGE_def str_def nl_def)

text \<open>
  With \<open>breaking\<close> set, a message that contains no blank-line pair and no
  \<open>BREAKING CHANGE\<close> marker is returned unchanged by the breaking-change step.
\<close>

lemma addBreakingChange_single_line:
  assumes "\<not> includes_str m (nl @ nl)" and "\<not> includes_str m BREAKING_CHANGE"
  shows "addBreakingChange True m = m \<and> \<not> includes_str (addBreakingChange True m) BREAKING_CHANGE"
  using assms by (simp add: addBreakingChange_def replace_absent)

text \<open>
  The same for the whole formatting of a request with \<open>breaking\<close> set and neither scope
  nor reference: the final message is the trimmed draft.
\<close>

lemma trim_inside: "\<exists>a b. s = a @ trim s @ b"
proof -
  let ?d = "dropWhile isSpace s"
  have "rev ?d = takeWhile isSpace (rev ?d) @ dropWhile isSpace (rev ?d)"
    by simp
  then have "?d = rev (dropWhile isSpace (rev ?d)) @ rev (takeWhile isSpace (rev ?d))"
    by (metis rev_append rev_rev_ident)
  then have "s = takeWhile isSpace s @ trim s @ rev (takeWhile isSpace (rev ?d))"
    unfolding trim_def by (metis takeWhile_dropWhile_id)
  then show ?thesis by blast
qed

lemma includes_trim: "includes_str (trim s) t \<Longrightarrow> includes_str s t"
proof -
  assume "includes_str (trim s) t"
  then obtain p q where "trim s = p @ t @ q" unfolding includes_str_iff by blast
  moreover obtain a b where "s = a @ trim s @ b" using trim_inside by blast
  ultimately have "s = (a @ p) @ t @ (q @ b)" by simp
  then show ?thesis unfolding includes_str_iff by blast
qed

lemma formatMessage_single_line:
  assumes "opt_breaking options" and "\<not> truthy (opt_scope options)" and "\<not> truthy (opt_ref options)"
    and "\<not> includes_str draft (nl @ nl)" and "\<not> includes_str draft BREAKING_CHANGE"
  shows "formatMessage toLowerCase options draft = trim draft
       \<and> \<not> includes_str (formatMessage toLowerCase options draft) BREAKING_CHANGE"
proof -
  have "\<not> includes_str (trim draft) (nl @ nl)" "\<not> includes_str (trim draft) BREAKING_CHANGE"
    using assms(4,5) includes_trim by blast+
  then show ?thesis
    using assms(1-3) by (simp add: formatMessage_def addScope_def addRef_def addBreakingChange_def replace_absent)
qed


section \<open>AIService.generateCommitMessage: the rate limit and the missing credential\<close>

lemma initializeService_ok:
  "truthy (selectApiKey w) \<Longrightarrow> \<exists>svc. initializeService w = (Inr (), Some svc)"
  by (simp add: initializeService_def Let_def)

lemma initializeService_no_key:
  "\<not> truthy (selectApiKey w) \<Longrightarrow>
     initializeService w
       = (Inl (Error (NO_API_KEY (AI_PROVIDER (w_config w)))),
          Some (createService (AI_PROVIDER (w_config w))))"
  by (simp add: initializeService_def Let_def)

lemma try_rate_limited:
  assumes "IS_FREE_ACCOUNT (w_config w)"
    and "w_clock w - orZero (LAST_REQUEST_TIME (w_config w)) < 60000"
    and "service \<noteq> None \<or> truthy (selectApiKey w)"
  shows "\<exists>service'. generateCommitMessage_try options (service, w)
           = (Inl (Error RATE_LIMIT_EXCEEDED), service', w)"
proof (cases service)
  case None
  with assms(3) obtain svc where "initializeService w = (Inr (), Some svc)"
    using initializeService_ok by blast
  with None assms(1,2) show ?thesis
    by (simp add: generateCommitMessage_try_def)
next
  case (Some svc)
  with assms(1,2) show ?thesis
    by (simp add: generateCommitMessage_try_def)
qed

lemmas world_defs = selectApiKey_def orElse_def truthy_def Boolean_def str_def NO_API_KEY_def
  providerString_def RATE_LIMIT_EXCEEDED_def createService_def

text \<open>
  C5, as the code has it. On a free account whose stored last-request time is less than
  60000 ms before the current time, and once the service exists or a key for the selected
  provider is available, \<open>generateCommitMessage\<close> rejects with the rate-limit error,
  wrapped by the \<open>catch\<close> clause, and leaves the world as it was: no request is sent to the
  provider.
\<close>

theorem rate_limit_rejects:
  assumes "IS_FREE_ACCOUNT (w_config w)"
    and "LAST_REQUEST_TIME (w_config w) = Some t" and "w_clock w - t < 60000"
    and "service \<noteq> None \<or> truthy (selectApiKey w)"
  shows "fst (generateCommitMessage options (service, w))
           = Inl (Error (str ''Failed to generate commit message: '' @ RATE_LIMIT_EXCEEDED))
       \<and> snd (snd (generateCommitMessage options (service, w))) = w"
proof -
  from assms have "w_clock w - orZero (LAST_REQUEST_TIME (w_config w)) < 60000"
    by (simp add: orZero_def)
  from try_rate_limited [OF assms(1) this assms(4)]
  obtain service' where "generateCommitMessage_try options (service, w)
           = (Inl (Error RATE_LIMIT_EXCEEDED), service', w)"
    by blast
  then show ?thesis by (simp add: generateCommitMessage_def)
qed

theorem rate_limit_rejects_witness:
  "fst (generateCommitMessage
          \<lparr>opt_diff = str ''diff --git a/x b/x'', opt_multiline = False, opt_useType = True,
           opt_emoji = False, opt_scope = None, opt_breaking = False, opt_ref = None,
           opt_customPrompt = None, opt_model = None\<rparr>
          (None,
           \<lparr>w_clock = 1700000000000,
            w_config = \<lparr>AI_PROVIDER = Gemini, GEMINI_API_KEY = Some (str ''key''),
                        OPENAI_API_KEY = None, IS_FREE_ACCOUNT = True,
                        LAST_REQUEST_TIME = Some 1699999999000, MODEL = None\<rparr>,
            w_env_GEMINI_API_KEY = None, w_env_OPENAI_API_KEY = None,
            w_complete = (\<lambda>prompt. Inr (str ''feat: add x'')), w_latency = 500,
            w_requests = [], w_write_error = None,
            w_toLowerCase = asciiLowerCase\<rparr>))
     = Inl (Error (str ''Failed to generate commit message: Rate limit exceeded. Please wait 1 minute between requests on free accounts.''))
   \<and> w_requests (snd (snd (generateCommitMessage
          \<lparr>opt_diff = str ''diff --git a/x b/x'', opt_multiline = False, opt_useType = True,
           opt_emoji = False, opt_scope = None, opt_breaking = False, opt_ref = None,
           opt_customPrompt = None, opt_model = None\<rparr>
          (None,
           \<lparr>w_clock = 1700000000000,
            w_config = \<lparr>AI_PROVIDER = Gemini, GEMINI_API_KEY = Some (str ''key''),
                        OPENAI_API_KEY = None, IS_FREE_ACCOUNT = True,
                        LAST_REQUEST_TIME = Some 1699999999000, MODEL = None\<rparr>,
            w_env_GEMINI_API_KEY = None, w_env_OPENAI_API_KEY = None,
            w_complete = (\<lambda>prompt. Inr (str ''feat: add x'')), w_latency = 500,
            w_requests = [], w_write_error = None,
            w_toLowerCase = asciiLowerCase\<rparr>)))) = []"
  using rate_limit_rejects [of
           "\<lparr>w_clock = 1700000000000,
            w_config = \<lparr>AI_PROVIDER = Gemini, GEMINI_API_KEY = Some (str ''key''),
                        OPENAI_API_KEY = None, IS_FREE_ACCOUNT = True,
                        LAST_REQUEST_TIME = Some 1699999999000, MODEL = None\<rparr>,
            w_env_GEMINI_API_KEY = None, w_env_OPENAI_API_KEY = None,
            w_complete = (\<lambda>prompt. Inr (str ''feat: add x'')), w_latency = 500,
            w_requests = [], w_write_error = None,
            w_toLowerCase = asciiLowerCase\<rparr>" 1699999999000 None
          "\<lparr>opt_diff = str ''diff --git a/x b/x'', opt_multiline = False, opt_useType = True,
           opt_emoji = False, opt_scope = None, opt_breaking = False, opt_ref = None,
           opt_customPrompt = None, opt_model = None\<rparr>"]
  by (simp add: world_defs)

text \<open>
  C5 as stated speaks of every such configuration. It fails where the selected provider
  has no key: the service is initialised before the rate limit is checked, and the error
  is the one of the missing key, not the rate-limit error.
\<close>

theorem rate_limit_preempted_by_missing_key:
  "fst (generateCommitMessage
          \<lparr>opt_diff = str ''diff --git a/x b/x'', opt_multiline = False, opt_useType = True,
           opt_emoji = False, opt_scope = None, opt_breaking = False, opt_ref = None,
           opt_customPrompt = None, opt_model = None\<rparr>
          (None,
           \<lparr>w_clock = 1700000000000,
            w_config = \<lparr>AI_PROVIDER = Gemini, GEMINI_API_KEY = None,
                        OPENAI_API_KEY = Some (str ''sk-1''), IS_FREE_ACCOUNT = True,
                        LAST_REQUEST_TIME = Some 1699999999000, MODEL = None\<rparr>,
            w_env_GEMINI_API_KEY = None, w_env_OPENAI_API_KEY = None,
            w_complete = (\<lambda>prompt. Inr (str ''feat: add x'')), w_latency = 500,
            w_requests = [], w_write_error = None,
            w_toLowerCase = asciiLowerCase\<rparr>))
     = Inl (Error (str ''Failed to generate commit message: No API key found for gemini. Please set it in the config or as an environment variable.''))"
  by (simp add: generateCommitMessage_def generateCommitMessage_try_def initializeService_def
        world_defs)

text \<open>
  In either case the call is rejected and no request is sent.
\<close>

lemma rate_limited_no_request:
  assumes "IS_FREE_ACCOUNT (w_config w)"
    and "w_clock w - orZero (LAST_REQUEST_TIME (w_config w)) < 60000"
  shows "isl (fst (generateCommitMessage options (service, w)))
       \<and> snd (snd (generateCommitMessage options (service, w))) = w"
proof (cases "service \<noteq> None \<or> truthy (selectApiKey w)")
  case True
  from try_rate_limited [OF assms this]
  obtain service' where "generateCommitMessage_try options (service, w)
           = (Inl (Error RATE_LIMIT_EXCEEDED), service', w)"
    by blast
  then show ?thesis by (simp add: generateCommitMessage_def)
next
  case False
  then show ?thesis
    by (simp add: generateCommitMessage_def generateCommitMessage_try_def
          initializeService_no_key)
qed

text \<open>
  C6, as the code has it. On an \<open>AIService\<close> whose service is not yet created, when
  neither the configuration nor the environment holds a key for the selected provider,
  \<open>generateCommitMessage\<close> fails with the message of the missing key prefixed by
  \<open>Failed to generate commit message: \<close>; no request is sent.
\<close>

theorem missing_credential_wrapped:
  assumes "\<not> truthy (selectApiKey w)"
  shows "generateCommitMessage options (None, w)
           = (Inl (Error (str ''Failed to generate commit message: ''
                            @ NO_API_KEY (AI_PROVIDER (w_config w)))),
              Some (createService (AI_PROVIDER (w_config w))), w)"
  using assms
  by (simp add: generateCommitMessage_def generateCommitMessage_try_def
        initializeService_no_key)

theorem missing_credential_wrapped_witness:
  "generateCommitMessage
          \<lparr>opt_diff = str ''diff --git a/x b/x'', opt_multiline = False, opt_useType = True,
           opt_emoji = False, opt_scope = None, opt_breaking = False, opt_ref = None,
           opt_customPrompt = None, opt_model = None\<rparr>
          (None,
           \<lparr>w_clock = 1700000000000,
            w_config = \<lparr>AI_PROVIDER = OpenAI, GEMINI_API_KEY = Some (str ''key''),
                        OPENAI_API_KEY = None, IS_FREE_ACCOUNT = False,
                        LAST_REQUEST_TIME = None, MODEL = None\<rparr>,
            w_env_GEMINI_API_KEY = None, w_env_OPENAI_API_KEY = Some [],
            w_complete = (\<lambda>prompt. Inr (str ''feat: add x'')), w_latency = 500,
            w_requests = [], w_write_error = None,
            w_toLowerCase = asciiLowerCase\<rparr>)
     = (Inl (Error (str ''Failed to generate commit message: No API key found for openai. Please set it in the config or as an environment variable.'')),
        Some \<lparr>svc_provider = OpenAI,
              svc_config = \<lparr>mc_apiKey = [], mc_isFreeAccount = True, mc_model = []\<rparr>,
              svc_initialized = False\<rparr>,
           \<lparr>w_clock = 1700000000000,
            w_config = \<lparr>AI_PROVIDER = OpenAI, GEMINI_API_KEY = Some (str ''key''),
                        OPENAI_API_KEY = None, IS_FREE_ACCOUNT = False,
                        LAST_REQUEST_TIME = None, MODEL = None\<rparr>,
            w_env_GEMINI_API_KEY = None, w_env_OPENAI_API_KEY = Some [],
            w_complete = (\<lambda>prompt. Inr (str ''feat: add x'')), w_latency = 500,
            w_requests = [], w_write_error = None,
            w_toLowerCase = asciiLowerCase\<rparr>)"
  using missing_credential_wrapped [of
           "\<lparr>w_clock = 1700000000000,
            w_config = \<lparr>AI_PROVIDER = OpenAI, GEMINI_API_KEY = Some (str ''key''),
                        OPENAI_API_KEY = None, IS_FREE_ACCOUNT = False,
                        LAST_REQUEST_TIME = None, MODEL = None\<rparr>,
            w_env_GEMINI_API_KEY = None, w_env_OPENAI_API_KEY = Some [],
            w_complete = (\<lambda>prompt. Inr (str ''feat: add x'')), w_latency = 500,
            w_requests = [], w_write_error = None,
            w_toLowerCase = asciiLowerCase\<rparr>"
          "\<lparr>opt_diff = str ''diff --git a/x b/x'', opt_multiline = False, opt_useType = True,
           opt_emoji = False, opt_scope = None, opt_breaking = False, opt_ref = None,
           opt_customPrompt = None, opt_model = None\<rparr>"]
  by (simp add: world_defs)

text \<open>
  C6 as stated says that the error of the missing key reaches the caller unmodified. It
  does not: the \<open>catch\<close> clause replaces it by a new error with a longer message.
\<close>

theorem missing_credential_not_verbatim:
  "fst (generateCommitMessage
          \<lparr>opt_diff = str ''diff --git a/x b/x'', opt_multiline = False, opt_useType = False,
           opt_emoji = False, opt_scope = None, opt_breaking = False, opt_ref = None,
           opt_customPrompt = None, opt_model = None\<rparr>
          (None,
           \<lparr>w_clock = 1700000000000,
            w_config = \<lparr>AI_PROVIDER = Gemini, GEMINI_API_KEY = None,
                        OPENAI_API_KEY = Some (str ''sk-1''), IS_FREE_ACCOUNT = False,
                        LAST_REQUEST_TIME = None, MODEL = None\<rparr>,
            w_env_GEMINI_API_KEY = None, w_env_OPENAI_API_KEY = None,
            w_complete = (\<lambda>prompt. Inr (str ''feat: add x'')), w_latency = 500,
            w_requests = [], w_write_error = None,
            w_toLowerCase = asciiLowerCase\<rparr>))
     \<noteq> Inl (Error (NO_API_KEY Gemini))
   \<and> NO_API_KEY Gemini = str ''No API key found for gemini. Please set it in the config or as an environment variable.''"
  by (simp add: generateCommitMessage_def generateCommitMessage_try_def initializeService_def
        world_defs)



section \<open>enforceCommitType keeps one line of the description\<close>

subsection \<open>What a character class reads holds no newline\<close>

lemma surrogate_not_nl: "isHighSurrogate c \<Longrightarrow> c \<noteq> 10" "isLowSurrogate c \<Longrightarrow> c \<noteq> 10"
  by (simp_all add: isHighSurrogate_def isLowSurrogate_def)

lemma class_consumes:
  assumes "(s', c') \<in> set (matcher u (Class P) input (s, c))" and "\<not> P 10"
  shows "\<exists>k. s = k @ s' \<and> k \<noteq> [] \<and> 10 \<notin> set k \<and> c' = c"
proof (cases s)
  case Nil
  with assms show ?thesis by simp
next
  case (Cons a t)
  show ?thesis
  proof (cases t)
    case Nil
    with Cons assms have "s = [a] @ s'" "a \<noteq> 10" "c' = c"
      by (auto split: if_splits)
    then show ?thesis by auto
  next
    case (Cons b t')
    show ?thesis
    proof (cases "u \<and> isHighSurrogate a \<and> isLowSurrogate b")
      case True
      with assms \<open>s = a # t\<close> \<open>t = b # t'\<close> have "s = [a, b] @ s'" "c' = c"
        by (auto split: if_splits)
      moreover have "a \<noteq> 10" "b \<noteq> 10" using True surrogate_not_nl by auto
      ultimately show ?thesis by auto
    next
      case False
      with assms \<open>s = a # t\<close> \<open>t = b # t'\<close> have "s = [a] @ s'" "a \<noteq> 10" "c' = c"
        by (auto split: if_splits)
      then show ?thesis by auto
    qed
  qed
qed

lemma in_star_iff:
  "y \<in> set (matcher u (Star r) input x) \<longleftrightarrow>
     y = x \<or> (\<exists>z\<in>set (matcher u r input x). length (fst z) < length (fst x)
                   \<and> y \<in> set (matcher u (Star r) input z))"
  by (subst matcher.simps) auto

lemma in_cat_iff:
  "y \<in> set (matcher u (Cat r1 r2) input x) \<longleftrightarrow>
     (\<exists>z\<in>set (matcher u r1 input x). y \<in> set (matcher u r2 input z))"
  by simp

lemma star_class_consumes:
  assumes "(s', c') \<in> set (matcher u (Star (Class P)) input (s, c))" and "\<not> P 10"
  shows "\<exists>k. s = k @ s' \<and> 10 \<notin> set k \<and> c' = c"
  using assms
proof (induction "length s" arbitrary: s rule: less_induct)
  case less
  from less.prems(1)
  have "(s', c') = (s, c) \<or> (\<exists>z\<in>set (matcher u (Class P) input (s, c)).
          length (fst z) < length (fst (s, c)) \<and> (s', c') \<in> set (matcher u (Star (Class P)) input z))"
    by (rule in_star_iff [THEN iffD1])
  then consider "(s', c') = (s, c)"
    | z where "z \<in> set (matcher u (Class P) input (s, c))" "length (fst z) < length s"
        "(s', c') \<in> set (matcher u (Star (Class P)) input z)"
    by (auto simp del: matcher.simps)
  then show ?case
  proof cases
    case 1
    then show ?thesis by simp
  next
    case 2
    obtain s1 c1 where z: "z = (s1, c1)" by (cases z)
    with 2(1) less.prems(2) obtain k1 where k1: "s = k1 @ s1" "10 \<notin> set k1" "c1 = c"
      using class_consumes by blast
    from less.hyps [of s1] 2(2,3) z k1(3) less.prems(2)
    obtain k2 where "s1 = k2 @ s'" "10 \<notin> set k2" "c' = c" by auto
    with k1 have "s = (k1 @ k2) @ s'" "10 \<notin> set (k1 @ k2)" by auto
    with \<open>c' = c\<close> show ?thesis by blast
  qed
qed

lemma plus_class_consumes:
  assumes "(s', c') \<in> set (matcher u (Plus (Class P)) input (s, c))" and "\<not> P 10"
  shows "\<exists>k. s = k @ s' \<and> 10 \<notin> set k \<and> c' = c"
proof -
  from assms(1) obtain z where z: "z \<in> set (matcher u (Class P) input (s, c))"
      "(s', c') \<in> set (matcher u (Star (Class P)) input z)"
    unfolding Plus_def in_cat_iff by blast
  obtain s1 c1 where "z = (s1, c1)" by (cases z)
  with z assms(2) class_consumes [of s1 c1 u P input s c]
    star_class_consumes [of s' c' u P input s1 c1]
  obtain k1 k2 where "s = k1 @ s1" "10 \<notin> set k1" "c1 = c" "s1 = k2 @ s'" "10 \<notin> set k2" "c' = c"
    by auto
  then have "s = (k1 @ k2) @ s'" "10 \<notin> set (k1 @ k2)" by auto
  with \<open>c' = c\<close> show ?thesis by blast
qed

lemma group_captures:
  assumes "y \<in> set (matcher u (Group r) input x)"
    and "\<And>s' c' s c. (s', c') \<in> set (matcher u r input (s, c)) \<Longrightarrow> \<exists>k. s = k @ s' \<and> 10 \<notin> set k"
  shows "\<exists>k. snd y = Some k \<and> 10 \<notin> set k"
proof -
  obtain s c where x: "x = (s, c)" by (cases x)
  with assms(1) obtain s' c' where y: "(s', c') \<in> set (matcher u r input (s, c))"
      "y = (s', Some (take (length s - length s') s))"
    by auto
  from assms(2) [OF y(1)] obtain k where "s = k @ s'" "10 \<notin> set k" by blast
  with y(2) show ?thesis by simp
qed

lemma seq_last_group:
  assumes "y \<in> set (matcher u (Cat (Group r) Empty) input x)"
    and "\<And>s' c' s c. (s', c') \<in> set (matcher u r input (s, c)) \<Longrightarrow> \<exists>k. s = k @ s' \<and> 10 \<notin> set k"
  shows "\<exists>k. snd y = Some k \<and> 10 \<notin> set k"
proof -
  from assms(1) have "y \<in> set (matcher u (Group r) input x)"
    by (simp del: matcher.simps(7))
  then show ?thesis using assms(2) by (rule group_captures)
qed

lemma exec_from_sound:
  "exec_from u r input s = Some m \<Longrightarrow>
     \<exists>x y. y \<in> set (matcher u r input x) \<and> m_group m = snd y"
proof (induction u r input s rule: exec_from.induct)
  case (1 unicode r input s)
  show ?case
  proof (cases "matcher unicode r input (s, None)")
    case Nil
    with "1.prems" obtain ch s'' where rc: "readChar unicode s = Some (ch, s'')"
        and "exec_from unicode r input s'' = Some m"
      by (subst (asm) exec_from.simps) (auto split: option.splits)
    with "1.IH" [OF Nil rc refl] show ?thesis by simp
  next
    case (Cons y ys)
    obtain s' cap where y: "y = (s', cap)" by (cases y)
    with Cons "1.prems" have "m_group m = cap"
      by (subst (asm) exec_from.simps) auto
    moreover have "y \<in> set (matcher unicode r input (s, None))" using Cons by simp
    ultimately show ?thesis using y by auto
  qed
qed

subsection \<open>The description pattern matches\<close>

lemma in_star_self: "x \<in> set (matcher u (Star r) input x)"
  by (subst in_star_iff) simp

lemma in_star_step:
  "z \<in> set (matcher u r input x) \<Longrightarrow> length (fst z) < length (fst x) \<Longrightarrow>
     y \<in> set (matcher u (Star r) input z) \<Longrightarrow> y \<in> set (matcher u (Star r) input x)"
  by (subst in_star_iff) blast

lemma in_catI:
  "z \<in> set (matcher u r1 input x) \<Longrightarrow> y \<in> set (matcher u r2 input z) \<Longrightarrow>
     y \<in> set (matcher u (Cat r1 r2) input x)"
  by (auto simp: in_cat_iff)

text \<open>One character that is not a colon, read from a run without colons that a colon ends.\<close>

lemma not_colon_step:
  assumes "k \<noteq> []" and "58 \<notin> set k"
  shows "\<exists>k'. (k' @ 58 # rest, c) \<in> set (matcher u (NotChr CHR '':'') input (k @ 58 # rest, c))
           \<and> 58 \<notin> set k' \<and> length k' < length k"
proof (cases k)
  case Nil
  with assms show ?thesis by simp
next
  case (Cons a t)
  show ?thesis
  proof (cases t)
    case Nil
    with Cons assms have "([] @ 58 # rest, c) \<in> set (matcher u (NotChr CHR '':'') input (k @ 58 # rest, c))"
      by (simp add: NotChr_def isLowSurrogate_def)
    with Cons Nil show ?thesis by (intro exI [of _ "[]"]) simp
  next
    case (Cons b t')
    show ?thesis
    proof (cases "u \<and> isHighSurrogate a \<and> isLowSurrogate b")
      case True
      with \<open>k = a # t\<close> Cons
      have "(t' @ 58 # rest, c) \<in> set (matcher u (NotChr CHR '':'') input (k @ 58 # rest, c))"
        by (simp add: NotChr_def)
      with \<open>k = a # t\<close> Cons assms show ?thesis by (intro exI [of _ t']) simp
    next
      case False
      with \<open>k = a # t\<close> Cons assms
      have "((b # t') @ 58 # rest, c) \<in> set (matcher u (NotChr CHR '':'') input (k @ 58 # rest, c))"
        by (auto simp add: NotChr_def)
      with \<open>k = a # t\<close> Cons assms show ?thesis by (intro exI [of _ "b # t'"]) simp
    qed
  qed
qed

lemma not_colon_star:
  "58 \<notin> set k \<Longrightarrow>
     (58 # rest, c) \<in> set (matcher u (Star (NotChr CHR '':'')) input (k @ 58 # rest, c))"
proof (induction "length k" arbitrary: k rule: less_induct)
  case less
  show ?case
  proof (cases "k = []")
    case True
    then show ?thesis by (simp add: in_star_self)
  next
    case False
    from not_colon_step [OF False less.prems, of rest c u input]
    obtain k' where k': "(k' @ 58 # rest, c) \<in> set (matcher u (NotChr CHR '':'') input (k @ 58 # rest, c))"
        "58 \<notin> set k'" "length k' < length k"
      by blast
    from less.hyps [OF k'(3) k'(2)]
    have star: "(58 # rest, c) \<in> set (matcher u (Star (NotChr CHR '':'')) input (k' @ 58 # rest, c))" .
    show ?thesis
      using k'(1) _ star by (rule in_star_step) (simp add: k'(3))
  qed
qed

lemma not_colon_plus:
  assumes "k \<noteq> []" and "58 \<notin> set k"
  shows "(58 # rest, c) \<in> set (matcher u (Plus (NotChr CHR '':'')) input (k @ 58 # rest, c))"
proof -
  from not_colon_step [OF assms, of rest c u input]
  obtain k' where k': "(k' @ 58 # rest, c) \<in> set (matcher u (NotChr CHR '':'') input (k @ 58 # rest, c))"
      "58 \<notin> set k'"
    by blast
  from not_colon_star [OF k'(2)] k'(1) show ?thesis
    unfolding Plus_def by (intro in_catI)
qed

lemma colon_step: "matcher u (Chr CHR '':'') input (58 # rest, c) = [(rest, c)]"
  by (cases rest) (simp_all add: Chr_def isHighSurrogate_def)

lemma space_step:
  assumes "isLineTerminator w"
  shows "matcher u space input (w # s, c) = [(s, c)]"
proof -
  have "\<not> isHighSurrogate w" "isSpace w"
    using assms by (auto simp: isLineTerminator_def isHighSurrogate_def isSpace_def)
  then show ?thesis
    by (cases s) (simp_all add: space_def)
qed

lemma space_star:
  "\<forall>w\<in>set ws. isLineTerminator w \<Longrightarrow>
     (t, c) \<in> set (matcher u (Star space) input (ws @ t, c))"
proof (induction ws)
  case Nil
  show ?case by (simp only: append_Nil in_star_self)
next
  case (Cons w ws)
  then have w: "isLineTerminator w" by simp
  have a: "(ws @ t, c) \<in> set (matcher u space input (w # ws @ t, c))"
    by (simp add: space_step [OF w])
  have b: "(t, c) \<in> set (matcher u (Star space) input (ws @ t, c))"
    using Cons by simp
  have "(t, c) \<in> set (matcher u (Star space) input (w # ws @ t, c))"
    using a _ b by (rule in_star_step) simp
  then show ?case by (simp only: append_Cons)
qed

lemma readChar_Cons:
  "\<exists>ch s'. readChar u (x # t) = Some (ch, s') \<and> (ch = x \<or> 0x10000 \<le> ch)"
proof (cases t)
  case Nil
  then show ?thesis by simp
next
  case (Cons b t')
  have "(0x10000::nat) \<le> 0x10000 + (x - 0xD800) * 0x400 + (b - 0xDC00)"
    by (simp only: add.assoc le_add1)
  with Cons show ?thesis
    by (cases "u \<and> isHighSurrogate x \<and> isLowSurrogate b") (simp_all del: mult_numeral_left)
qed

lemma dot_step:
  assumes "\<not> isLineTerminator x"
  shows "matcher u dot input (x # t, c) \<noteq> []"
proof -
  obtain ch s' where rc: "readChar u (x # t) = Some (ch, s')" "ch = x \<or> 0x10000 \<le> ch"
    using readChar_Cons by blast
  then have "\<not> isLineTerminator ch"
    using assms by (auto simp: isLineTerminator_def)
  with rc(1) show ?thesis by (simp add: dot_def)
qed

lemma star_nonempty: "matcher u (Star r) input x \<noteq> []"
  using in_star_self [of x u r input] by (metis empty_iff empty_set)

lemma cat_nonempty:
  "matcher u r1 input x \<noteq> [] \<Longrightarrow> (\<And>z. matcher u r2 input z \<noteq> []) \<Longrightarrow>
     matcher u (Cat r1 r2) input x \<noteq> []"
  by (cases "matcher u r1 input x") auto

lemma group_plus_dot_nonempty:
  assumes "\<not> isLineTerminator x"
  shows "matcher u (Cat (Group (Plus dot)) Empty) input (x # t, c) \<noteq> []"
proof -
  have "matcher u (Plus dot) input (x # t, c) \<noteq> []"
    unfolding Plus_def using dot_step [OF assms] star_nonempty by (intro cat_nonempty)
  then have "matcher u (Group (Plus dot)) input (x # t, c) \<noteq> []"
    by simp
  then show ?thesis
    by (intro cat_nonempty) simp_all
qed

lemma descriptionRegex_unfold:
  "descriptionRegex =
     Cat Bol (Cat (Plus (NotChr CHR '':'')) (Cat (Chr CHR '':'') (Cat (Star space)
       (Cat (Opt (Seq [emojiClass, Star space])) (Cat (Group (Plus dot)) Empty)))))"
  by (simp add: descriptionRegex_def Seq_def)

lemma descriptionRegex_matches:
  assumes "pre \<noteq> []" and "58 \<notin> set pre" and "\<exists>x\<in>set rest. \<not> isLineTerminator x"
  shows "matcher u descriptionRegex (pre @ 58 # rest) (pre @ 58 # rest, None) \<noteq> []"
proof -
  let ?input = "pre @ 58 # rest"
  from assms(3) obtain ws x t where rest: "rest = ws @ x # t" "\<not> isLineTerminator x"
      "\<forall>w\<in>set ws. isLineTerminator w"
    using split_list_first_prop [of rest "\<lambda>x. \<not> isLineTerminator x"] by auto
  have 1: "(?input, None) \<in> set (matcher u Bol ?input (?input, None))"
    by simp
  have 2: "(58 # rest, None) \<in> set (matcher u (Plus (NotChr CHR '':'')) ?input (?input, None))"
    using assms(1,2) by (rule not_colon_plus)
  have 3: "(rest, None) \<in> set (matcher u (Chr CHR '':'') ?input (58 # rest, None))"
    by (simp add: colon_step)
  have 4: "(x # t, None) \<in> set (matcher u (Star space) ?input (rest, None))"
    unfolding rest(1) using rest(3) by (rule space_star)
  have 5: "(x # t, None) \<in> set (matcher u (Opt (Seq [emojiClass, Star space])) ?input (x # t, None))"
    by simp
  obtain y where 6: "y \<in> set (matcher u (Cat (Group (Plus dot)) Empty) ?input (x # t, None))"
    using group_plus_dot_nonempty [OF rest(2), of u ?input t None]
    by (meson last_in_set)
  have "y \<in> set (matcher u descriptionRegex ?input (?input, None))"
    unfolding descriptionRegex_unfold
    by (intro in_catI [OF 1] in_catI [OF 2] in_catI [OF 3] in_catI [OF 4] in_catI [OF 5] 6)
  then show ?thesis by auto
qed

lemma cat_last:
  "y \<in> set (matcher u (Cat r1 r2) input x) \<Longrightarrow> \<exists>z. y \<in> set (matcher u r2 input z)"
  by (auto simp: in_cat_iff)

lemma descriptionRegex_capture:
  assumes "y \<in> set (matcher u descriptionRegex input x)"
  shows "\<exists>k. snd y = Some k \<and> 10 \<notin> set k"
proof -
  from assms obtain z where "y \<in> set (matcher u (Cat (Group (Plus dot)) Empty) input z)"
    unfolding descriptionRegex_unfold by (blast dest: cat_last)
  then show ?thesis
  proof (rule seq_last_group)
    fix s' c' s c
    assume "(s', c') \<in> set (matcher u (Plus dot) input (s, c))"
    then have "\<exists>k. s = k @ s' \<and> 10 \<notin> set k \<and> c' = c"
      unfolding dot_def by (rule plus_class_consumes) (simp add: isLineTerminator_def)
    then show "\<exists>k. s = k @ s' \<and> 10 \<notin> set k" by blast
  qed
qed

lemma emojiRegex_capture:
  assumes "y \<in> set (matcher u emojiRegex input x)"
  shows "\<exists>k. snd y = Some k \<and> 10 \<notin> set k"
proof -
  have "emojiRegex = Cat (Chr CHR '':'') (Cat (Star space) (Cat (Group emojiClass) Empty))"
    by (simp add: emojiRegex_def Seq_def)
  with assms obtain z where "y \<in> set (matcher u (Cat (Group emojiClass) Empty) input z)"
    by (metis cat_last)
  then show ?thesis
  proof (rule seq_last_group)
    fix s' c' s c
    assume "(s', c') \<in> set (matcher u emojiClass input (s, c))"
    then have "\<exists>k. s = k @ s' \<and> k \<noteq> [] \<and> 10 \<notin> set k \<and> c' = c"
      unfolding emojiClass_def by (rule class_consumes) simp
    then show "\<exists>k. s = k @ s' \<and> 10 \<notin> set k" by blast
  qed
qed

lemma extractEmoji_no_newline: "10 \<notin> set (extractEmoji message emoji)"
proof (cases "emoji \<and> regex_match message True emojiRegex \<noteq> None")
  case False
  then have "extractEmoji message emoji = []"
    by (cases "regex_match message True emojiRegex") (simp_all add: extractEmoji_def)
  then show ?thesis by simp
next
  case True
  then obtain m where m: "regex_match message True emojiRegex = Some m" by auto
  then obtain x y where y: "y \<in> set (matcher True emojiRegex message x)" "m_group m = snd y"
    unfolding regex_match_def using exec_from_sound by blast
  from emojiRegex_capture [OF y(1)] y(2) obtain k where "m_group m = Some k" "10 \<notin> set k"
    by auto
  with m True show ?thesis by (simp add: extractEmoji_def)
qed

lemma extractDescription_no_newline:
  assumes "pre \<noteq> []" and "58 \<notin> set pre" and "\<exists>x\<in>set rest. \<not> isLineTerminator x"
  shows "10 \<notin> set (extractDescription (pre @ 58 # rest))"
proof -
  let ?message = "pre @ 58 # rest"
  have "matcher True descriptionRegex ?message (?message, None) \<noteq> []"
    using assms by (rule descriptionRegex_matches)
  then obtain s' cap ys where first: "matcher True descriptionRegex ?message (?message, None) = (s', cap) # ys"
    by (metis neq_Nil_conv surj_pair)
  then have "(s', cap) \<in> set (matcher True descriptionRegex ?message (?message, None))"
    by simp
  with descriptionRegex_capture obtain k where k: "cap = Some k" "10 \<notin> set k"
    by fastforce
  from first have "\<exists>m. regex_match ?message True descriptionRegex = Some m \<and> m_group m = cap"
    unfolding regex_match_def by (subst exec_from.simps) simp
  with k show ?thesis by (auto simp: extractDescription_def)
qed

lemma typeString_no_newline: "10 \<notin> set (typeString type)"
  by (cases type) (simp_all add: str_def)

text \<open>
  C9, as the code has it. For every draft that has a colon which is not its first code
  unit, whose first colon is followed by at least one code unit that is not a line
  terminator, and whose kept scope parenthetical holds no newline, \<open>enforceCommitType\<close>
  returns a message without a newline: what follows the first line of the description
  is dropped.
\<close>

theorem enforceCommitType_single_line:
  assumes "message = pre @ 0x3A # rest" and "pre \<noteq> []" and "0x3A \<notin> set pre"
    and "\<exists>c\<in>set rest. \<not> isLineTerminator c"
    and "0x0A \<notin> set (case extractScope message of None \<Rightarrow> [] | Some m \<Rightarrow> m_text m)"
  shows "0x0A \<notin> set (enforceCommitType message type emoji)"
proof -
  have "10 \<notin> set (extractDescription message)"
    unfolding assms(1) using assms(2-4) by (rule extractDescription_no_newline)
  moreover have "10 \<notin> set (extractEmoji message emoji)"
    by (rule extractEmoji_no_newline)
  moreover have "10 \<notin> set (typeString type)"
    by (rule typeString_no_newline)
  ultimately show ?thesis
    using assms(5) by (cases emoji) (simp_all add: enforceCommitType_def Let_def str_def)
qed

theorem enforceCommitType_single_line_witness:
  "enforceCommitType (str ''fix(api): add x'' @ nl @ nl @ str ''body'') Feat True
     = str ''feat(api): add x''
   \<and> 0x0A \<notin> set (enforceCommitType (str ''fix(api): add x'' @ nl @ nl @ str ''body'') Feat True)"
proof -
  have 1: "str ''fix(api): add x'' @ nl @ nl @ str ''body''
             = str ''fix(api)'' @ 0x3A # (str '' add x'' @ nl @ nl @ str ''body'')"
    by (simp add: str_def)
  have 2: "str ''fix(api)'' \<noteq> []" and 3: "0x3A \<notin> set (str ''fix(api)'')"
    by (simp_all add: str_def)
  have 4: "\<exists>c\<in>set (str '' add x'' @ nl @ nl @ str ''body''). \<not> isLineTerminator c"
    by (simp add: str_def isLineTerminator_def)
  have 5: "0x0A \<notin> set (case extractScope (str ''fix(api): add x'' @ nl @ nl @ str ''body'') of
                          None \<Rightarrow> [] | Some m \<Rightarrow> m_text m)"
    by (simp add: enforce_defs regex_defs)
  have "enforceCommitType (str ''fix(api): add x'' @ nl @ nl @ str ''body'') Feat True
     = str ''feat(api): add x''"
    by (simp add: enforce_defs regex_defs)
  with enforceCommitType_single_line [OF 1 2 3 4 5, of Feat True] show ?thesis
    by simp
qed

text \<open>
  C9 as stated asks only for a colon followed by a character that is not a newline. A
  draft that starts with a colon (an emoji shortcode) has one, but the description
  pattern needs a character before the first colon: it does not match, the whole draft
  is taken as the description, and the body stays.
\<close>

theorem enforceCommitType_keeps_newline:
  "enforceCommitType (str '':sparkles: add x'' @ nl @ nl @ str ''body'') Feat True
     = str ''feat: :sparkles: add x'' @ nl @ nl @ str ''body''
   \<and> 0x0A \<in> set (enforceCommitType (str '':sparkles: add x'' @ nl @ nl @ str ''body'') Feat True)"
  by (simp add: enforce_defs regex_defs)


section \<open>A request for a breaking change on a draft without a blank line\<close>

subsection \<open>Occurrences in a text that is put together\<close>

lemma includes_str_Nil: "includes_str s []"
  by (cases s) simp_all

lemma prefix_before:
  assumes "prefix t (u @ c # b)" and "c \<notin> set t"
  shows "prefix t u"
proof -
  from assms(1) consider "prefix t u" | w where "t = u @ w" "prefix w (c # b)"
    by (auto simp: prefix_append)
  then show ?thesis
  proof cases
    case 1
    then show ?thesis .
  next
    case 2
    with assms(2) have "w = []" by (cases w) auto
    with 2 show ?thesis by simp
  qed
qed

lemma includes_split_at:
  "includes_str (a @ c # b) t \<Longrightarrow> c \<notin> set t \<Longrightarrow> includes_str a t \<or> includes_str b t"
proof (induction a)
  case Nil
  then have "prefix t (c # b) \<or> includes_str b t" by simp
  then show ?case
  proof
    assume "prefix t (c # b)"
    with Nil(2) have "t = []" by (cases t) auto
    then show ?thesis by (simp add: includes_str_Nil)
  qed simp
next
  case (Cons x a)
  from Cons.prems(1) have "prefix t ((x # a) @ c # b) \<or> includes_str (a @ c # b) t" by simp
  then show ?case
  proof
    assume "prefix t ((x # a) @ c # b)"
    then have "prefix t (x # a)" using Cons.prems(2) by (rule prefix_before)
    then show ?thesis by simp
  next
    assume "includes_str (a @ c # b) t"
    with Cons.IH Cons.prems(2) show ?thesis by auto
  qed
qed

lemma includes_chars: "includes_str a t \<Longrightarrow> set t \<subseteq> set a"
  by (auto simp: includes_str_iff)

lemma includes_suffix: "includes_str b t \<Longrightarrow> includes_str (a @ b) t"
proof -
  assume "includes_str b t"
  then obtain p q where "b = p @ t @ q" unfolding includes_str_iff by blast
  then have "a @ b = (a @ p) @ t @ q" by simp
  then show ?thesis unfolding includes_str_iff by blast
qed

subsection \<open>What the pattern of the type prefix matches\<close>

lemma class_reads:
  assumes "(s', c') \<in> set (matcher False (Class P) input (s, c))"
  shows "\<exists>x. s = x # s' \<and> P x \<and> c' = c"
proof (cases s)
  case Nil
  with assms show ?thesis by simp
next
  case (Cons a t)
  with assms show ?thesis by (cases t) (auto split: if_splits)
qed

lemma star_class_reads:
  assumes "(s', c') \<in> set (matcher False (Star (Class P)) input (s, c))"
  shows "\<exists>k. s = k @ s' \<and> (\<forall>x\<in>set k. P x) \<and> c' = c"
  using assms
proof (induction "length s" arbitrary: s rule: less_induct)
  case less
  from less.prems
  have "(s', c') = (s, c) \<or> (\<exists>z\<in>set (matcher False (Class P) input (s, c)).
          length (fst z) < length (fst (s, c)) \<and> (s', c') \<in> set (matcher False (Star (Class P)) input z))"
    by (rule in_star_iff [THEN iffD1])
  then consider "(s', c') = (s, c)"
    | z where "z \<in> set (matcher False (Class P) input (s, c))" "length (fst z) < length s"
        "(s', c') \<in> set (matcher False (Star (Class P)) input z)"
    by (auto simp del: matcher.simps)
  then show ?case
  proof cases
    case 1
    then show ?thesis by simp
  next
    case 2
    obtain s1 c1 where z: "z = (s1, c1)" by (cases z)
    with 2(1) obtain x where x: "s = x # s1" "P x" "c1 = c"
      using class_reads by blast
    from less.hyps [of s1] 2(2,3) z x(3)
    obtain k where "s1 = k @ s'" "\<forall>x\<in>set k. P x" "c' = c" by auto
    with x have "s = (x # k) @ s'" "\<forall>y\<in>set (x # k). P y" by auto
    with \<open>c' = c\<close> show ?thesis by blast
  qed
qed

lemma typeColon_reads:
  assumes "(s', c') \<in> set (matcher False (Seq [Plus word, Chr CHR '':'']) input (s, c))"
  shows "\<exists>k. s = k @ s' \<and> (\<forall>x\<in>set k. isWord x \<or> x = 0x3A)"
proof -
  from assms obtain z1 z2 where z: "z1 \<in> set (matcher False word input (s, c))"
      "z2 \<in> set (matcher False (Star word) input z1)"
      "(s', c') \<in> set (matcher False (Chr CHR '':'') input z2)"
    by (auto simp: Seq_def Plus_def simp del: matcher.simps(2))
  obtain s1 c1 s2 c2 where zz: "z1 = (s1, c1)" "z2 = (s2, c2)" by (cases z1, cases z2)
  from z(1) zz obtain x where 1: "s = x # s1" "isWord x"
    unfolding word_def using class_reads by blast
  from z(2) zz obtain k where 2: "s1 = k @ s2" "\<forall>x\<in>set k. isWord x"
    unfolding word_def using star_class_reads by blast
  from z(3) zz obtain y where 3: "s2 = y # s'" "y = 0x3A"
    unfolding Chr_def using class_reads [of s' c' "\<lambda>x. x = of_char CHR '':''" input s2 c2] by auto
  from 1 2 3 have "s = (x # k @ [y]) @ s'" "\<forall>x\<in>set (x # k @ [y]). isWord x \<or> x = 0x3A"
    by auto
  then show ?thesis by blast
qed

lemma typeColonRegex_reads:
  assumes "(s', cap) \<in> set (matcher False typeColonRegex input (s, c))"
  shows "length s = length input
       \<and> (\<exists>k. s = k @ s' \<and> cap = Some k \<and> (\<forall>x\<in>set k. isWord x \<or> x = 0x3A))"
proof -
  have unfold: "typeColonRegex = Cat Bol (Cat (Group (Seq [Plus word, Chr CHR '':''])) Empty)"
    by (simp add: typeColonRegex_def Seq_def)
  from assms have len: "length s = length input"
    and "(s', cap) \<in> set (matcher False (Group (Seq [Plus word, Chr CHR '':''])) input (s, c))"
    unfolding unfold by (auto simp del: matcher.simps(7) split: if_splits)
  then obtain c' where inner: "(s', c') \<in> set (matcher False (Seq [Plus word, Chr CHR '':'']) input (s, c))"
    and cap: "cap = Some (take (length s - length s') s)"
    by auto
  from typeColon_reads [OF inner] obtain k where "s = k @ s'" "\<forall>x\<in>set k. isWord x \<or> x = 0x3A"
    by blast
  with cap len show ?thesis by auto
qed

lemma readChar_suffix: "readChar u s = Some (ch, s') \<Longrightarrow> suffix s' s"
  by (induction u s rule: readChar.induct) (auto simp: suffix_def split: if_splits)

lemma exec_from_first:
  "exec_from u r input s = Some m \<Longrightarrow> suffix s input \<Longrightarrow>
     \<exists>s0 s' cap ys. suffix s0 input \<and> matcher u r input (s0, None) = (s', cap) # ys
       \<and> m_index m = length input - length s0
       \<and> m_text m = take (length s0 - length s') s0 \<and> m_group m = cap"
proof (induction u r input s rule: exec_from.induct)
  case (1 unicode r input s)
  show ?case
  proof (cases "matcher unicode r input (s, None)")
    case Nil
    with "1.prems"(1) obtain ch s'' where rc: "readChar unicode s = Some (ch, s'')"
        and ex: "exec_from unicode r input s'' = Some m"
      by (subst (asm) exec_from.simps) (auto split: option.splits)
    from rc "1.prems"(2) have "suffix s'' input"
      using readChar_suffix suffix_order.trans by blast
    with "1.IH" [OF Nil rc refl ex] show ?thesis by simp
  next
    case (Cons y ys)
    obtain s' cap where y: "y = (s', cap)" by (cases y)
    with Cons "1.prems"(1)
    have "m = \<lparr>m_index = length input - length s, m_text = take (length s - length s') s,
               m_group = cap\<rparr>"
      by (subst (asm) exec_from.simps) auto
    with Cons y "1.prems"(2) show ?thesis by auto
  qed
qed

lemma getSubstitution_literal:
  "0x24 \<notin> set template \<Longrightarrow> getSubstitution matched before after grp template = template"
  by (induction matched before after grp template rule: getSubstitution.induct) auto

text \<open>
  The scope rule on a scope without \<open>$\<close>: either nothing changes, or the scope is put in
  parentheses after a leading run of word characters and the colon.
\<close>

lemma addScope_cases:
  assumes "0x24 \<notin> set scope"
  shows "addScope (Some scope) t = t
       \<or> (\<exists>k s'. t = k @ s' \<and> (\<forall>x\<in>set k. isWord x \<or> x = 0x3A)
             \<and> addScope (Some scope) t = k @ 0x28 # scope @ 0x29 # s')"
proof (cases "truthy (Some scope) \<and> regex_match t False typeColonRegex \<noteq> None")
  case False
  have "addScope (Some scope) t = t"
  proof (cases "truthy (Some scope)")
    case False
    then show ?thesis by (simp only: addScope_def if_False)
  next
    case True
    with \<open>\<not> (truthy (Some scope) \<and> regex_match t False typeColonRegex \<noteq> None)\<close>
    have none: "regex_match t False typeColonRegex = None" by blast
    have "replace_regex t False typeColonRegex x = t" for x
      by (simp only: replace_regex_def none option.case)
    with True show ?thesis by (simp only: addScope_def if_True)
  qed
  then show ?thesis by (rule disjI1)
next
  case True
  then obtain m where m: "regex_match t False typeColonRegex = Some m" by blast
  from exec_from_first [OF m [unfolded regex_match_def]]
  obtain s0 s' cap ys where first: "suffix s0 t"
      "matcher False typeColonRegex t (s0, None) = (s', cap) # ys"
      "m_index m = length t - length s0" "m_text m = take (length s0 - length s') s0"
      "m_group m = cap"
    by auto
  from first(2) have "(s', cap) \<in> set (matcher False typeColonRegex t (s0, None))" by simp
  from typeColonRegex_reads [OF this]
  obtain k where k: "length s0 = length t" "s0 = k @ s'" "cap = Some k"
      "\<forall>x\<in>set k. isWord x \<or> x = 0x3A"
    by blast
  from first(1) k(1) have "s0 = t"
    by (metis suffix_def append_eq_append_conv append_Nil)
  have "m_text m = take (length (k @ s') - length s') (k @ s')"
    using first(4) by (simp only: k(2))
  then have mm: "m_index m = 0" "m_text m = k" "m_group m = Some k"
    using first(3,5) k(1,3) by simp_all
  have t: "t = k @ s'"
    using k(2) unfolding \<open>s0 = t\<close> .
  have "getSubstitution k [] s' (Some k) (str ''$1('' @ scope @ str '')'')
          = k @ 0x28 # scope @ [0x29]"
    using assms by (simp add: str_def getSubstitution_literal)
  then have "addScope (Some scope) t = k @ 0x28 # scope @ 0x29 # s'"
    using True m mm t by (simp add: addScope_def replace_regex_def textOf_def)
  with t k(4) show ?thesis by blast
qed

subsection \<open>The marker cannot appear\<close>

lemma word_or_colon_excludes:
  assumes "\<forall>x\<in>set k. isWord x \<or> x = 0x3A"
  shows "\<not> includes_str k (nl @ nl)" and "\<not> includes_str k BREAKING_CHANGE"
proof -
  have "0x0A \<notin> set k" "0x20 \<notin> set k"
    using assms by (auto simp: isWord_def)
  moreover have "0x0A \<in> set (nl @ nl)" "0x20 \<in> set BREAKING_CHANGE"
    by (simp_all add: nl_def BREAKING_CHANGE_def str_def)
  ultimately show "\<not> includes_str k (nl @ nl)" and "\<not> includes_str k BREAKING_CHANGE"
    using includes_chars by blast+
qed

lemma addScope_keeps_absent:
  assumes "0x24 \<notin> set scope" and "0x28 \<notin> set X" and "0x29 \<notin> set X"
    and "\<not> includes_str scope X" and "\<not> includes_str t X"
    and "\<And>k. \<forall>x\<in>set k. isWord x \<or> x = 0x3A \<Longrightarrow> \<not> includes_str k X"
  shows "\<not> includes_str (addScope (Some scope) t) X"
proof
  assume inc: "includes_str (addScope (Some scope) t) X"
  from addScope_cases [OF assms(1), of t]
  consider "addScope (Some scope) t = t"
    | k s' where "t = k @ s'" "\<forall>x\<in>set k. isWord x \<or> x = 0x3A"
        "addScope (Some scope) t = k @ 0x28 # scope @ 0x29 # s'"
    by blast
  then show False
  proof cases
    case 1
    with inc assms(5) show False by simp
  next
    case 2
    from inc 2(3) have "includes_str (k @ 0x28 # (scope @ 0x29 # s')) X" by simp
    then have "includes_str k X \<or> includes_str (scope @ 0x29 # s') X"
      using assms(2) by (rule includes_split_at)
    moreover have "\<not> includes_str k X" using 2(2) by (rule assms(6))
    ultimately have "includes_str (scope @ 0x29 # s') X" by blast
    then have "includes_str scope X \<or> includes_str s' X"
      using assms(3) by (rule includes_split_at)
    with assms(4) have "includes_str s' X" by blast
    then have "includes_str (k @ s') X" by (rule includes_suffix)
    with 2(1) assms(5) show False by simp
  qed
qed

lemma addRef_keeps_marker_absent:
  assumes "\<not> includes_str m BREAKING_CHANGE"
    and "\<forall>ref. r = Some ref \<longrightarrow> \<not> includes_str ref BREAKING_CHANGE"
  shows "\<not> includes_str (addRef toLowerCase r m) BREAKING_CHANGE"
proof (cases "addRef toLowerCase r m = m")
  case True
  with assms(1) show ?thesis by simp
next
  case False
  then obtain ref where ref: "r = Some ref"
      "addRef toLowerCase r m = m @ nl @ nl @ str ''Refs: '' @ ref"
    by (cases r) (auto simp: addRef_def truthy_def textOf_def split: if_splits)
  have M: "BREAKING_CHANGE = 0x42 # str ''REAKING CHANGE''" "0x0A \<notin> set BREAKING_CHANGE"
      "0x3A \<notin> set BREAKING_CHANGE"
    by (simp_all add: BREAKING_CHANGE_def str_def)
  show ?thesis
  proof
    assume "includes_str (addRef toLowerCase r m) BREAKING_CHANGE"
    then have "includes_str (m @ 0x0A # ([] @ 0x0A # (str ''Refs'' @ 0x3A # (0x20 # ref)))) BREAKING_CHANGE"
      by (simp add: ref(2) nl_def str_def)
    then have "includes_str ([] @ 0x0A # (str ''Refs'' @ 0x3A # (0x20 # ref))) BREAKING_CHANGE"
      using includes_split_at [OF _ M(2)] assms(1) by blast
    then have "includes_str [] BREAKING_CHANGE
       \<or> includes_str (str ''Refs'' @ 0x3A # (0x20 # ref)) BREAKING_CHANGE"
      using M(2) by (rule includes_split_at)
    then have "includes_str (str ''Refs'' @ 0x3A # (0x20 # ref)) BREAKING_CHANGE"
      by (simp add: M(1))
    then have "includes_str (str ''Refs'') BREAKING_CHANGE \<or> includes_str (0x20 # ref) BREAKING_CHANGE"
      using M(3) by (rule includes_split_at)
    moreover have "\<not> includes_str (str ''Refs'') BREAKING_CHANGE"
      by (simp add: BREAKING_CHANGE_def str_def)
    ultimately have "includes_str (0x20 # ref) BREAKING_CHANGE" by blast
    then have "includes_str ref BREAKING_CHANGE"
      by (simp add: M(1))
    with assms(2) ref(1) show False by blast
  qed
qed

lemmas format_defs = formatMessage_def addScope_def addBreakingChange_def addRef_def
  replace_regex_def regex_match_def exec_from.simps matcher.simps trim_def truthy_def textOf_def
  asciiLowerCase_def BREAKING_CHANGE_def str_def nl_def Boolean_def

text \<open>
  C10, as the code has it. For every draft message that contains no blank-line pair and
  no \<open>BREAKING CHANGE\<close> marker, a request with \<open>breaking\<close> set, whose scope (if any)
  contains no \<open>$\<close>, no blank-line pair and no marker and whose reference (if any)
  contains no marker, produces a final message that still contains no marker: the
  breaking-change step changes nothing, and the final message is the trimmed draft with
  the scope and the reference added.
\<close>

theorem breaking_change_needs_blank_line:
  assumes "opt_breaking options"
    and "\<not> includes_str draft (nl @ nl)" and "\<not> includes_str draft BREAKING_CHANGE"
    and "\<forall>scope. opt_scope options = Some scope \<longrightarrow>
           0x24 \<notin> set scope \<and> \<not> includes_str scope (nl @ nl)
           \<and> \<not> includes_str scope BREAKING_CHANGE"
    and "\<forall>ref. opt_ref options = Some ref \<longrightarrow> \<not> includes_str ref BREAKING_CHANGE"
  shows "\<not> includes_str (formatMessage toLowerCase options draft) BREAKING_CHANGE
       \<and> formatMessage toLowerCase options draft
           = addRef toLowerCase (opt_ref options) (addScope (opt_scope options) (trim draft))"
proof -
  let ?t = "trim draft"
  let ?s = "addScope (opt_scope options) ?t"
  have t: "\<not> includes_str ?t (nl @ nl)" "\<not> includes_str ?t BREAKING_CHANGE"
    using assms(2,3) includes_trim by blast+
  have s: "\<not> includes_str ?s (nl @ nl) \<and> \<not> includes_str ?s BREAKING_CHANGE"
  proof (cases "opt_scope options")
    case None
    with t show ?thesis by (simp add: addScope_def truthy_def)
  next
    case (Some scope)
    with assms(4) have sc: "0x24 \<notin> set scope" "\<not> includes_str scope (nl @ nl)"
        "\<not> includes_str scope BREAKING_CHANGE"
      by auto
    have "\<not> includes_str (addScope (Some scope) ?t) (nl @ nl)"
      using sc(1) _ _ sc(2) t(1) word_or_colon_excludes(1)
      by (rule addScope_keeps_absent) (simp_all add: nl_def)
    moreover have "\<not> includes_str (addScope (Some scope) ?t) BREAKING_CHANGE"
      using sc(1) _ _ sc(3) t(2) word_or_colon_excludes(2)
      by (rule addScope_keeps_absent) (simp_all add: BREAKING_CHANGE_def str_def)
    ultimately show ?thesis using Some by simp
  qed
  then have b: "addBreakingChange True ?s = ?s"
    by (simp add: addBreakingChange_def replace_absent)
  then have f: "formatMessage toLowerCase options draft = addRef toLowerCase (opt_ref options) ?s"
    using assms(1) by (simp add: formatMessage_def)
  have "\<not> includes_str (addRef toLowerCase (opt_ref options) ?s) BREAKING_CHANGE"
    using s assms(5) by (intro addRef_keeps_marker_absent) auto
  with f show ?thesis by simp
qed

theorem breaking_change_needs_blank_line_witness:
  "formatMessage asciiLowerCase
     \<lparr>opt_diff = str ''diff --git a/x b/x'', opt_multiline = False, opt_useType = True,
      opt_emoji = False, opt_scope = Some (str ''api''), opt_breaking = True,
      opt_ref = Some (str ''#12''), opt_customPrompt = None, opt_model = None\<rparr>
     (str ''feat: drop v1'')
     = str ''feat:(api) drop v1'' @ nl @ nl @ str ''Refs: #12''
   \<and> \<not> includes_str (formatMessage asciiLowerCase
     \<lparr>opt_diff = str ''diff --git a/x b/x'', opt_multiline = False, opt_useType = True,
      opt_emoji = False, opt_scope = Some (str ''api''), opt_breaking = True,
      opt_ref = Some (str ''#12''), opt_customPrompt = None, opt_model = None\<rparr>
     (str ''feat: drop v1'')) BREAKING_CHANGE"
proof -
  let ?options = "\<lparr>opt_diff = str ''diff --git a/x b/x'', opt_multiline = False,
      opt_useType = True, opt_emoji = False, opt_scope = Some (str ''api''),
      opt_breaking = True, opt_ref = Some (str ''#12''), opt_customPrompt = None,
      opt_model = None\<rparr>"
  have 1: "opt_breaking ?options" by simp
  have 2: "\<not> includes_str (str ''feat: drop v1'') (nl @ nl)"
    and 3: "\<not> includes_str (str ''feat: drop v1'') BREAKING_CHANGE"
    by (simp_all add: str_def nl_def BREAKING_CHANGE_def)
  have 4: "\<forall>scope. opt_scope ?options = Some scope \<longrightarrow>
           0x24 \<notin> set scope \<and> \<not> includes_str scope (nl @ nl)
           \<and> \<not> includes_str scope BREAKING_CHANGE"
    by (simp add: str_def nl_def BREAKING_CHANGE_def)
  have 5: "\<forall>ref. opt_ref ?options = Some ref \<longrightarrow> \<not> includes_str ref BREAKING_CHANGE"
    by (simp add: str_def BREAKING_CHANGE_def)
  have eq: "formatMessage asciiLowerCase ?options (str ''feat: drop v1'')
     = str ''feat:(api) drop v1'' @ nl @ nl @ str ''Refs: #12''"
    by (simp add: format_defs regex_defs)
  from breaking_change_needs_blank_line [OF 1 2 3 4 5, of asciiLowerCase]
  have "\<not> includes_str (formatMessage asciiLowerCase ?options (str ''feat: drop v1''))
          BREAKING_CHANGE"
    by (rule conjunct1)
  with eq show ?thesis by (rule conjI)
qed

text \<open>
  C10 as stated speaks of every request with \<open>breaking\<close> set. The scope is inserted
  before the breaking-change step: a scope that holds a blank-line pair gives the step
  its place of insertion, and the marker appears although the draft has one line.
\<close>

theorem breaking_change_marker_from_scope:
  "formatMessage asciiLowerCase
     \<lparr>opt_diff = str ''diff --git a/x b/x'', opt_multiline = False, opt_useType = True,
      opt_emoji = False, opt_scope = Some (str ''a'' @ nl @ nl @ str ''b''),
      opt_breaking = True, opt_ref = None, opt_customPrompt = None, opt_model = None\<rparr>
     (str ''feat: x'')
     = str ''feat:(a'' @ nl @ nl @ str ''BREAKING CHANGE: b) x''
   \<and> includes_str (str ''feat:(a'' @ nl @ nl @ str ''BREAKING CHANGE: b) x'') BREAKING_CHANGE"
  by (simp add: format_defs regex_defs)

text \<open>
  The other two conditions are needed as well: \<open>$'\<close> in a scope stands for the text
  after the type prefix and can complete a marker, and a reference can hold one.
\<close>

lemma breaking_change_marker_from_dollar:
  "formatMessage asciiLowerCase
     \<lparr>opt_diff = str ''diff --git a/x b/x'', opt_multiline = False, opt_useType = True,
      opt_emoji = False, opt_scope = Some (str ''BREAKING $'' @ [0x27]),
      opt_breaking = True, opt_ref = None, opt_customPrompt = None, opt_model = None\<rparr>
     (str ''feat:CHANGE x'')
     = str ''feat:(BREAKING CHANGE x)CHANGE x''"
  by (simp add: format_defs regex_defs)

lemma breaking_change_marker_from_ref:
  "formatMessage asciiLowerCase
     \<lparr>opt_diff = str ''diff --git a/x b/x'', opt_multiline = False, opt_useType = True,
      opt_emoji = False, opt_scope = None, opt_breaking = True,
      opt_ref = Some (str ''BREAKING CHANGE''), opt_customPrompt = None, opt_model = None\<rparr>
     (str ''feat: x'')
     = str ''feat: x'' @ nl @ nl @ str ''Refs: BREAKING CHANGE''"
  by (simp add: format_defs regex_defs)

end
